theory Spec2Isabelle
  imports Main "HOL-Library.Word" "HOL-Library.Sublist"
begin

unbundle bit_operations_syntax

section \<open>FluxFile fast_fs: a shallow embedding of \<^verbatim>\<open>fast_fs.cpp\<close>\<close>

text \<open>
  The module has four operations: \<^verbatim>\<open>scandir_recursive\<close>, \<^verbatim>\<open>calculate_blake3\<close>,
  \<^verbatim>\<open>calculate_blake3_batch\<close> and \<^verbatim>\<open>get_file_info\<close>. Each one is translated below into
  a HOL function over an explicit description of what the operating system answers: the
  file system is a function from paths to what \<^verbatim>\<open>std::filesystem\<close> and \<^verbatim>\<open>std::ifstream\<close>
  report for that path, a directory is a tree of entries in listing order, the two
  clocks are readings handed to the function, and the host says which requests for memory
  and for threads it grants. A C++ exception is the \<open>Inl\<close> branch of a sum.
\<close>

subsection \<open>Errors\<close>

text \<open>
  \<^verbatim>\<open>std::runtime_error\<close> is thrown by the module itself, \<^verbatim>\<open>fs::filesystem_error\<close> by the
  standard library; both carry their \<^verbatim>\<open>what()\<close> text. \<^verbatim>\<open>std::bad_alloc\<close> is raised by
  \<^verbatim>\<open>new\<close> when the memory is not there, \<^verbatim>\<open>std::system_error\<close> by \<^verbatim>\<open>std::thread\<close> when a
  thread cannot be started.
\<close>

datatype error = RuntimeError string | FilesystemError string | BadAlloc | SystemError

subsection \<open>What the file system reports for one path\<close>

datatype file_type =
  NotFound | Regular | Directory | Symlink | Block | Character | Fifo | Socket | Unknown

type_synonym byte = "8 word"

text \<open>
  One object of the file system, as the library calls of the module see it:
  \<^item> \<open>own_type\<close> is the type of the object itself (\<^verbatim>\<open>symlink_status\<close>, no link followed);
    \<open>NotFound\<close> when nothing has that name. This query is taken to succeed always: for a
    directory entry it is the type the iterator itself holds and decides the descent with;
  \<^item> \<open>target\<close> is, for a symbolic link, what resolving the link gives (\<^verbatim>\<open>status\<close>): the
    type of the target, \<open>NotFound\<close> for a dangling link, or the \<^verbatim>\<open>filesystem_error\<close> raised;
  \<^item> \<open>stat_error\<close> is, for an object that is no symbolic link, the \<^verbatim>\<open>filesystem_error\<close>
    that \<^verbatim>\<open>status\<close> raises on its path, if it raises (a directory of the path that may
    not be searched, for instance);
  \<^item> \<open>file_size\<close> and \<open>last_write_time\<close> are the results of the calls of these names (both
    follow links); the time is a count of ticks of the file clock;
  \<^item> \<open>permissions\<close> is the permission mask of \<^verbatim>\<open>status\<close>;
  \<^item> \<open>opens\<close>, \<open>content\<close> and \<open>read_error\<close> say what a binary \<^verbatim>\<open>std::ifstream\<close> on the
    path does: whether it opens, the bytes it delivers, and whether the device fails
    after delivering them (instead of reaching end of file).
\<close>

record fs_object =
  own_type :: file_type
  target :: "string + file_type"
  stat_error :: "string option"
  file_size :: "string + 64 word"
  last_write_time :: "string + int"
  permissions :: "32 word"
  opens :: bool
  content :: "byte list"
  read_error :: bool

type_synonym filesystem = "string \<Rightarrow> fs_object"

text \<open>
  \<^verbatim>\<open>fs::status\<close> of a path: the type after following a symbolic link, or the
  \<^verbatim>\<open>filesystem_error\<close> raised.
\<close>

definition status :: "fs_object \<Rightarrow> string + file_type" where
  "status ob =
     (if own_type ob = Symlink then target ob
      else (case stat_error ob of Some m \<Rightarrow> Inl m | None \<Rightarrow> Inr (own_type ob)))"

text \<open>\<^verbatim>\<open>fs::symlink_status\<close>: the type of the object itself.\<close>

definition symlink_status :: "fs_object \<Rightarrow> file_type" where
  "symlink_status ob = own_type ob"

text \<open>
  The throwing overloads \<^verbatim>\<open>fs::exists(p)\<close>, \<^verbatim>\<open>fs::is_directory(p)\<close> and
  \<^verbatim>\<open>fs::is_regular_file(p)\<close>: they take \<^verbatim>\<open>status(p)\<close> and raise when it does.
\<close>

definition fs_exists :: "fs_object \<Rightarrow> error + bool" where
  "fs_exists ob = (case status ob of Inl m \<Rightarrow> Inl (FilesystemError m) | Inr t \<Rightarrow> Inr (t \<noteq> NotFound))"

definition fs_is_directory :: "fs_object \<Rightarrow> error + bool" where
  "fs_is_directory ob = (case status ob of Inl m \<Rightarrow> Inl (FilesystemError m) | Inr t \<Rightarrow> Inr (t = Directory))"

definition fs_is_regular_file :: "fs_object \<Rightarrow> error + bool" where
  "fs_is_regular_file ob = (case status ob of Inl m \<Rightarrow> Inl (FilesystemError m) | Inr t \<Rightarrow> Inr (t = Regular))"

subsection \<open>The hash primitive\<close>

text \<open>
  \<^verbatim>\<open>blake3.h\<close> only declares the hasher; its implementation is not part of the sources.
  The three calls the module makes are therefore parameters of the model: the state after
  \<^verbatim>\<open>blake3_hasher_init\<close>, \<^verbatim>\<open>blake3_hasher_update\<close> on a state and a block of bytes, and
  \<^verbatim>\<open>blake3_hasher_finalize\<close>, which fills the first \<open>out_len\<close> bytes of the output buffer
  (the list it returns here). No property below depends on what these bytes are.
\<close>

record 'h hash_engine =
  blake3_hasher_init :: 'h
  blake3_hasher_update :: "'h \<Rightarrow> byte list \<Rightarrow> 'h"
  blake3_hasher_finalize :: "'h \<Rightarrow> nat \<Rightarrow> byte list"

definition BLAKE3_OUT_LEN :: nat where
  "BLAKE3_OUT_LEN = 32"

text \<open>
  The requirement the specification puts on \<^verbatim>\<open>update\<close>: feeding two blocks one after the
  other is feeding their concatenation.
\<close>

definition chunk_insensitive :: "'h hash_engine \<Rightarrow> bool" where
  "chunk_insensitive E \<longleftrightarrow>
     (\<forall>h a b. blake3_hasher_update E (blake3_hasher_update E h a) b = blake3_hasher_update E h (a @ b))"

definition hex_chars :: string where
  "hex_chars = ''0123456789abcdef''"

text \<open>
  The loop \<^verbatim>\<open>for (i = 0; i < BLAKE3_OUT_LEN; ++i)\<close> that pushes two characters per output
  byte, high nibble first.
\<close>

definition hex_encode :: "byte list \<Rightarrow> string" where
  "hex_encode output =
     concat (map (\<lambda>i. [hex_chars ! unat (drop_bit 4 (output ! i) AND 0x0F),
                        hex_chars ! unat ((output ! i) AND 0x0F)])
                 [0..<BLAKE3_OUT_LEN])"

subsection \<open>\<^verbatim>\<open>std::ifstream\<close>\<close>

text \<open>
  The stream holds the bytes not yet extracted, whether the device fails once they are
  used up, the three state bits, and the count of the last unformatted read.
\<close>

record ifstream =
  is_open :: bool
  unread :: "byte list"
  device_error :: bool
  eofbit :: bool
  failbit :: bool
  badbit :: bool
  gcount :: nat

text \<open>The constructor \<^verbatim>\<open>std::ifstream file(path, std::ios::binary)\<close>: a failed open sets \<^verbatim>\<open>failbit\<close>.\<close>

definition ifstream_open :: "fs_object \<Rightarrow> ifstream" where
  "ifstream_open ob =
     \<lparr>is_open = opens ob, unread = content ob, device_error = read_error ob,
      eofbit = False, failbit = \<not> opens ob, badbit = False, gcount = 0\<rparr>"

text \<open>\<^verbatim>\<open>operator bool\<close> of a stream is \<^verbatim>\<open>!fail()\<close>, and \<^verbatim>\<open>fail()\<close> is \<^verbatim>\<open>failbit | badbit\<close>.\<close>

definition stream_ok :: "ifstream \<Rightarrow> bool" where
  "stream_ok f \<longleftrightarrow> \<not> (failbit f \<or> badbit f)"

text \<open>
  \<^verbatim>\<open>file.read(buffer, n)\<close>, returning the stream and the bytes stored in the buffer.
  On a stream that is not good the sentry fails: \<^verbatim>\<open>failbit\<close>, nothing read. Otherwise \<open>n\<close>
  bytes are extracted when that many are left, and no state bit changes (so a request for
  0 bytes never notices the end of the file). When fewer are left, the rest is extracted
  and \<^verbatim>\<open>eofbit | failbit\<close> are set; when the device fails instead, the exception of the
  buffer is caught inside \<^verbatim>\<open>read\<close>, which sets \<^verbatim>\<open>badbit\<close> and leaves the count at 0.
\<close>

definition istream_read :: "ifstream \<Rightarrow> nat \<Rightarrow> ifstream \<times> byte list" where
  "istream_read f n =
     (if failbit f \<or> badbit f \<or> eofbit f then (f\<lparr>failbit := True, gcount := 0\<rparr>, [])
      else if n \<le> length (unread f) then
        (f\<lparr>unread := drop n (unread f), gcount := n\<rparr>, take n (unread f))
      else if device_error f then (f\<lparr>unread := [], badbit := True, gcount := 0\<rparr>, [])
      else (f\<lparr>unread := [], eofbit := True, failbit := True, gcount := length (unread f)\<rparr>,
            unread f))"

subsection \<open>The host\<close>

text \<open>
  What the machine answers when the module asks it for memory and threads:
  \<^item> \<open>alloc_limit\<close>: \<^verbatim>\<open>new uint8_t[n]\<close> in \<^verbatim>\<open>calculate_blake3\<close> gives the buffer when
    \<open>n \<le> alloc_limit\<close> and raises \<^verbatim>\<open>std::bad_alloc\<close> otherwise (it also raises, on every
    host, when \<open>n\<close> is above \<^verbatim>\<open>PTRDIFF_MAX\<close>, the largest size of an object);
  \<^item> \<open>vectors_ok jobs\<close>: whether the call of \<^verbatim>\<open>calculate_blake3_batch\<close> gets its two
    vectors of \<open>jobs\<close> slots (\<^verbatim>\<open>std::bad_alloc\<close> otherwise);
  \<^item> \<open>threads_available\<close>: that many calls of \<^verbatim>\<open>threads.emplace_back(worker)\<close> start a
    thread, the next one raises \<^verbatim>\<open>std::system_error\<close>;
  \<^item> \<open>buffer_ok w\<close>: whether worker \<open>w\<close> gets its buffer of \<^verbatim>\<open>1024 * 1024\<close> bytes;
  \<^item> \<open>hardware_concurrency\<close>: \<^verbatim>\<open>static_cast<int>(std::thread::hardware_concurrency())\<close>;
  \<^item> \<open>never_ends p\<close>: the stream of the path \<open>p\<close> never reaches its end (a device that
    delivers bytes for ever, a pipe nobody writes to).
\<close>

record host =
  alloc_limit :: nat
  vectors_ok :: "nat \<Rightarrow> bool"
  threads_available :: nat
  buffer_ok :: "nat \<Rightarrow> bool"
  hardware_concurrency :: int
  never_ends :: "string \<Rightarrow> bool"

definition PTRDIFF_MAX :: nat where
  "PTRDIFF_MAX = 9223372036854775807"

text \<open>A regular file is finite: only a path that is none can be a stream without end.\<close>

definition unending :: "host \<Rightarrow> filesystem \<Rightarrow> string \<Rightarrow> bool" where
  "unending M fs p \<longleftrightarrow> never_ends M p \<and> status (fs p) \<noteq> Inr Regular"

subsection \<open>\<^verbatim>\<open>calculate_blake3\<close>\<close>

text \<open>
  The loop \<^verbatim>\<open>while (file) { file.read(buffer, chunk_size); if (gcount > 0) update(...) }\<close>.
  It need not end, so it is a partial function: \<open>None\<close> is a loop that never returns.
\<close>

partial_function (option) read_loop ::
  "('h \<Rightarrow> byte list \<Rightarrow> 'h) \<Rightarrow> nat \<Rightarrow> ifstream \<Rightarrow> 'h \<Rightarrow> (ifstream \<times> 'h) option" where
  "read_loop upd chunk_size file hasher =
     (if stream_ok file then
        (case istream_read file chunk_size of
           (file', buffer) \<Rightarrow>
             read_loop upd chunk_size file'
               (if 0 < gcount file' then upd hasher (take (gcount file') buffer) else hasher))
      else Some (file, hasher))"

text \<open>
  \<^verbatim>\<open>calculate_blake3(file_path, chunk_size)\<close>. The result is \<open>None\<close> when the read loop does
  not return, \<open>Some (Inl e)\<close> for an exception and \<open>Some (Inr hex)\<close> for the digest.
  After the two checks of the path the buffer of \<open>chunk_size\<close> bytes is allocated, which
  raises \<^verbatim>\<open>std::bad_alloc\<close> when the host does not have it; then the file is opened.
\<close>

definition calculate_blake3 ::
  "'h hash_engine \<Rightarrow> host \<Rightarrow> filesystem \<Rightarrow> string \<Rightarrow> nat \<Rightarrow> (error + string) option" where
  "calculate_blake3 E M fs file_path chunk_size =
     (case fs_exists (fs file_path) of
        Inl e \<Rightarrow> Some (Inl e)
      | Inr ex \<Rightarrow>
          if \<not> ex then Some (Inl (RuntimeError (''File does not exist: '' @ file_path)))
          else (case fs_is_regular_file (fs file_path) of
            Inl e \<Rightarrow> Some (Inl e)
          | Inr reg \<Rightarrow>
              if \<not> reg then Some (Inl (RuntimeError (''Path is not a regular file: '' @ file_path)))
              else if alloc_limit M < chunk_size \<or> PTRDIFF_MAX < chunk_size then
                Some (Inl BadAlloc)
              else (let file = ifstream_open (fs file_path) in
                if \<not> is_open file then Some (Inl (RuntimeError (''Cannot open file: '' @ file_path)))
                else (case read_loop (blake3_hasher_update E) chunk_size file (blake3_hasher_init E) of
                  None \<Rightarrow> None
                | Some (file', hasher) \<Rightarrow>
                    if badbit file' then Some (Inl (RuntimeError (''Error reading file: '' @ file_path)))
                    else Some (Inr (hex_encode (blake3_hasher_finalize E hasher BLAKE3_OUT_LEN)))))))"


text \<open>
  What the loop leaves in the hasher when it returns at end of file: the bytes of the
  file, fed in blocks of \<open>n\<close> bytes (the last one shorter).
\<close>

function feed_chunks :: "('h \<Rightarrow> byte list \<Rightarrow> 'h) \<Rightarrow> nat \<Rightarrow> byte list \<Rightarrow> 'h \<Rightarrow> 'h" where
  "feed_chunks upd n bs h =
     (if n = 0 \<or> bs = [] then h else feed_chunks upd n (drop n bs) (upd h (take n bs)))"
  by pat_completeness auto
termination
  by (relation "measure (\<lambda>(upd, n, bs, h). length bs)") auto

declare feed_chunks.simps [simp del]

text \<open>\<^verbatim>\<open>good()\<close>: no state bit is set.\<close>

definition good :: "ifstream \<Rightarrow> bool" where
  "good f \<longleftrightarrow> \<not> failbit f \<and> \<not> badbit f \<and> \<not> eofbit f"

subsection \<open>\<^verbatim>\<open>calculate_blake3_batch\<close>\<close>

text \<open>
  A value of the returned dictionary: the hex string, or the dictionary
  \<^verbatim>\<open>{"error": message}\<close>.
\<close>

datatype hash_value = Hash string | ErrorInfo string

text \<open>
  The state the workers share: the atomic cursor \<^verbatim>\<open>next_index\<close>, the two pre-sized
  vectors \<^verbatim>\<open>results\<close> and \<^verbatim>\<open>errors\<close> (named \<open>hash_results\<close> and \<open>hash_errors\<close> here), and
  for each worker thread whether it is still inside its \<^verbatim>\<open>while (true)\<close> loop.
\<close>

record batch_state =
  next_index :: nat
  hash_results :: "(string \<times> string) list"
  hash_errors :: "string list"
  running :: "bool list"

text \<open>
  The \<^verbatim>\<open>try\<close> block of the worker for the claimed index \<open>idx\<close>. The parameter \<open>exn\<close> says,
  for each index, whether a \<^verbatim>\<open>std::exception\<close> surfaces while that job runs (for instance
  \<^verbatim>\<open>std::bad_alloc\<close>) and with which \<^verbatim>\<open>what()\<close>; the handler stores the text in the error
  slot. The buffer size is the constant \<^verbatim>\<open>1024 * 1024\<close>. The worker opens the path as it
  is, without asking whether it is a regular file, so it can meet a stream without end:
  then the read loop does not return (\<open>None\<close>).
\<close>

definition hash_job ::
  "'h hash_engine \<Rightarrow> host \<Rightarrow> filesystem \<Rightarrow> (nat \<Rightarrow> string option) \<Rightarrow> string list \<Rightarrow> nat \<Rightarrow>
   batch_state \<Rightarrow> batch_state option" where
  "hash_job E M fs exn file_paths idx st =
     (let path = file_paths ! idx in
      case exn idx of
        Some what \<Rightarrow> Some (st\<lparr>hash_errors := (hash_errors st)[idx := what]\<rparr>)
      | None \<Rightarrow>
          (let file = ifstream_open (fs path) in
           if \<not> is_open file then
             Some (st\<lparr>hash_errors := (hash_errors st)[idx := ''Cannot open file'']\<rparr>)
           else if unending M fs path then None
           else (case read_loop (blake3_hasher_update E) (1024 * 1024) file (blake3_hasher_init E) of
             None \<Rightarrow> None
           | Some (file', hasher) \<Rightarrow>
               if badbit file' then
                 Some (st\<lparr>hash_errors := (hash_errors st)[idx := ''Error reading file'']\<rparr>)
               else
                 Some (st\<lparr>hash_results := (hash_results st)
                   [idx := (path, hex_encode (blake3_hasher_finalize E hasher BLAKE3_OUT_LEN))]\<rparr>))))"

text \<open>
  One turn of the loop of worker \<open>w\<close>: claim an index with \<^verbatim>\<open>fetch_add(1)\<close>, leave the loop
  when it is past the end, run the job otherwise. A worker that has left its loop does
  nothing more. A turn is taken as one step: a job writes only the two slots of the index
  it claimed, and no other worker claims that index.
\<close>

definition worker_iteration ::
  "'h hash_engine \<Rightarrow> host \<Rightarrow> filesystem \<Rightarrow> (nat \<Rightarrow> string option) \<Rightarrow> string list \<Rightarrow> nat \<Rightarrow>
   batch_state \<Rightarrow> batch_state option" where
  "worker_iteration E M fs exn file_paths w st =
     (if w < length (running st) \<and> running st ! w then
        (let idx = next_index st; st1 = st\<lparr>next_index := idx + 1\<rparr> in
         if idx \<ge> length file_paths then Some (st1\<lparr>running := (running st1)[w := False]\<rparr>)
         else hash_job E M fs exn file_paths idx st1)
      else Some st)"

text \<open>The threads run in some interleaving: a schedule lists whose turn it is.\<close>

fun run_workers ::
  "'h hash_engine \<Rightarrow> host \<Rightarrow> filesystem \<Rightarrow> (nat \<Rightarrow> string option) \<Rightarrow> string list \<Rightarrow> nat list \<Rightarrow>
   batch_state \<Rightarrow> batch_state option" where
  "run_workers E M fs exn file_paths [] st = Some st"
| "run_workers E M fs exn file_paths (w # ws) st =
     (case worker_iteration E M fs exn file_paths w st of
        None \<Rightarrow> None
      | Some st' \<Rightarrow> run_workers E M fs exn file_paths ws st')"

text \<open>
  The resolution of \<^verbatim>\<open>num_threads\<close>; \<open>hw\<close> is
  \<^verbatim>\<open>static_cast<int>(std::thread::hardware_concurrency())\<close>.
\<close>

definition resolve_threads :: "int \<Rightarrow> int \<Rightarrow> int" where
  "resolve_threads hw num_threads =
     (if num_threads \<le> 0 then (if hw \<le> 0 then 4 else hw) else num_threads)"

text \<open>The body of the final loop that builds the dictionary, for index \<open>i\<close>.\<close>

definition merge_entry ::
  "string list \<Rightarrow> batch_state \<Rightarrow> (string \<rightharpoonup> hash_value) \<Rightarrow> nat \<Rightarrow> (string \<rightharpoonup> hash_value)" where
  "merge_entry file_paths st py_results i =
     (if hash_errors st ! i = [] \<and> snd (hash_results st ! i) \<noteq> [] then
        py_results(fst (hash_results st ! i) \<mapsto> Hash (snd (hash_results st ! i)))
      else
        py_results(file_paths ! i \<mapsto>
          ErrorInfo (if hash_errors st ! i = [] then ''Unknown error'' else hash_errors st ! i)))"

definition build_results :: "string list \<Rightarrow> batch_state \<Rightarrow> (string \<rightharpoonup> hash_value)" where
  "build_results file_paths st = foldl (merge_entry file_paths st) Map.empty [0..<length file_paths]"

text \<open>How a call ends: it returns a value, it raises, or the process is terminated.\<close>

datatype 'a outcome = Returns 'a | Raises error | Terminates

text \<open>
  \<^verbatim>\<open>calculate_blake3_batch(file_paths, num_threads)\<close> under a schedule of its threads.
  The vectors are made and the threads are started first. When a vector does not get its
  memory, the exception leaves the function. When the first \<^verbatim>\<open>emplace_back\<close> raises, no thread exists
  yet and the \<^verbatim>\<open>std::system_error\<close> leaves the function. When a later one raises, the
  vector of running threads is destroyed while they are joinable, and when a worker does
  not get its buffer, \<^verbatim>\<open>std::bad_alloc\<close> leaves the thread function (the allocation stands
  before the \<^verbatim>\<open>try\<close>): both end in \<^verbatim>\<open>std::terminate\<close>. Otherwise the call returns once
  every thread has been joined, that is once every worker has left its loop; \<open>None\<close> is
  a call that has not returned when the schedule is used up, or that waits for a job
  whose read loop never returns.
\<close>

definition calculate_blake3_batch ::
  "'h hash_engine \<Rightarrow> host \<Rightarrow> filesystem \<Rightarrow> (nat \<Rightarrow> string option) \<Rightarrow> string list \<Rightarrow> int \<Rightarrow>
   nat list \<Rightarrow> (string \<rightharpoonup> hash_value) outcome option" where
  "calculate_blake3_batch E M fs exn file_paths num_threads schedule =
     (let threads = nat (resolve_threads (hardware_concurrency M) num_threads) in
      if \<not> vectors_ok M (length file_paths) then Some (Raises BadAlloc)
      else if threads_available M = 0 then Some (Raises SystemError)
      else if threads_available M < threads \<or> \<not> list_all (buffer_ok M) [0..<threads] then
        Some Terminates
      else
        (let st0 = \<lparr>next_index = 0,
                    hash_results = replicate (length file_paths) ('''', ''''),
                    hash_errors = replicate (length file_paths) '''',
                    running = replicate threads True\<rparr>
         in case run_workers E M fs exn file_paths schedule st0 of
              None \<Rightarrow> None
            | Some st \<Rightarrow> if list_ex (\<lambda>r. r) (running st) then None
                         else Some (Returns (build_results file_paths st))))"

text \<open>
  A host that has what a batch of these hash jobs asks for: the call gets its vectors,
  its worker threads start and get their buffers, and no path of the list is a stream without end.
\<close>

definition provides ::
  "host \<Rightarrow> filesystem \<Rightarrow> string list \<Rightarrow> int \<Rightarrow> bool" where
  "provides M fs file_paths num_threads \<longleftrightarrow>
     (let threads = nat (resolve_threads (hardware_concurrency M) num_threads) in
      vectors_ok M (length file_paths) \<and>
      threads \<le> threads_available M \<and> list_all (buffer_ok M) [0..<threads] \<and>
      \<not> list_ex (unending M fs) file_paths)"

text \<open>
  The entry the specification promises for the job of index \<open>i\<close>: an error description
  when an exception surfaced, the file did not open or a read failed, and otherwise the
  hex digest of the bytes of the file.
\<close>

definition expected_entry ::
  "'h hash_engine \<Rightarrow> filesystem \<Rightarrow> (nat \<Rightarrow> string option) \<Rightarrow> string list \<Rightarrow> nat \<Rightarrow> hash_value" where
  "expected_entry E fs exn file_paths i =
     (case exn i of
        Some what \<Rightarrow> ErrorInfo (if what = [] then ''Unknown error'' else what)
      | None \<Rightarrow>
          if \<not> opens (fs (file_paths ! i)) then ErrorInfo ''Cannot open file''
          else if read_error (fs (file_paths ! i)) then ErrorInfo ''Error reading file''
          else Hash (hex_encode (blake3_hasher_finalize E
                 (feed_chunks (blake3_hasher_update E) (1024 * 1024)
                    (content (fs (file_paths ! i))) (blake3_hasher_init E))
                 BLAKE3_OUT_LEN)))"


subsection \<open>What a batch leaves behind\<close>

text \<open>
  What the job of index \<open>i\<close> leaves in its two slots \<^verbatim>\<open>results[i]\<close> and \<^verbatim>\<open>errors[i]\<close>.
\<close>

definition job_result ::
  "'h hash_engine \<Rightarrow> filesystem \<Rightarrow> (nat \<Rightarrow> string option) \<Rightarrow> string list \<Rightarrow> nat \<Rightarrow> string \<times> string" where
  "job_result E fs exn file_paths i =
     (if exn i = None \<and> opens (fs (file_paths ! i)) \<and> \<not> read_error (fs (file_paths ! i)) then
        (file_paths ! i,
         hex_encode (blake3_hasher_finalize E
           (feed_chunks (blake3_hasher_update E) (1024 * 1024)
              (content (fs (file_paths ! i))) (blake3_hasher_init E))
           BLAKE3_OUT_LEN))
      else ('''', ''''))"

definition job_error ::
  "filesystem \<Rightarrow> (nat \<Rightarrow> string option) \<Rightarrow> string list \<Rightarrow> nat \<Rightarrow> string" where
  "job_error fs exn file_paths i =
     (case exn i of
        Some what \<Rightarrow> what
      | None \<Rightarrow>
          if \<not> opens (fs (file_paths ! i)) then ''Cannot open file''
          else if read_error (fs (file_paths ! i)) then ''Error reading file''
          else '''')"

text \<open>
  The invariant of the pool: the slots of the indices claimed so far hold what their jobs
  leave, the other slots are still empty, and a worker has left its loop only when the
  cursor is past the end.
\<close>

definition pool_inv ::
  "'h hash_engine \<Rightarrow> filesystem \<Rightarrow> (nat \<Rightarrow> string option) \<Rightarrow> string list \<Rightarrow> batch_state \<Rightarrow> bool" where
  "pool_inv E fs exn file_paths st \<longleftrightarrow>
     hash_results st =
       map (\<lambda>i. if i < next_index st then job_result E fs exn file_paths i else ('''', ''''))
         [0..<length file_paths] \<and>
     hash_errors st =
       map (\<lambda>i. if i < next_index st then job_error fs exn file_paths i else '''')
         [0..<length file_paths] \<and>
     (list_ex (\<lambda>r. \<not> r) (running st) \<longrightarrow> length file_paths < next_index st)"

text \<open>Storing the entry \<open>g i\<close> under the key \<open>ks ! i\<close>, as the final loop does for each index.\<close>

definition put_entry :: "'k list \<Rightarrow> (nat \<Rightarrow> 'v) \<Rightarrow> ('k \<rightharpoonup> 'v) \<Rightarrow> nat \<Rightarrow> ('k \<rightharpoonup> 'v)" where
  "put_entry ks g d i = d(ks ! i \<mapsto> g i)"

text \<open>No exception surfaces in any job.\<close>

definition no_exception :: "nat \<Rightarrow> string option" where
  "no_exception i = None"

text \<open>The entry of a key in the dictionary a call returned; \<open>None\<close> when there is none.\<close>

definition entry_of :: "('k \<rightharpoonup> 'v) outcome option \<Rightarrow> 'k \<Rightarrow> 'v option" where
  "entry_of r k = (case r of Some (Returns d) \<Rightarrow> d k | _ \<Rightarrow> None)"

subsection \<open>Clocks and the reconciled modification time\<close>

text \<open>
  One reading of the two clocks, taken together: \<^verbatim>\<open>fs::file_time_type::clock::now()\<close> and
  \<^verbatim>\<open>std::chrono::system_clock::now()\<close>. Times are counts of ticks of one nanosecond, as
  integers; the 64-bit range of the counters is not modelled.
\<close>

record clock_sample =
  file_clock_now :: int
  sys_clock_now :: int

definition ticks_per_second :: int where
  "ticks_per_second = 1000000000"

text \<open>
  \<^verbatim>\<open>time_point_cast<seconds>(t).time_since_epoch().count()\<close>: the integer division of C++,
  which truncates towards zero. The result is stored in a \<^verbatim>\<open>double\<close>; the conversion is
  exact for every count below \<open>2 ^ 53\<close> in magnitude, and the model keeps the integer.
\<close>

definition time_point_cast_seconds :: "int \<Rightarrow> int" where
  "time_point_cast_seconds t = sgn t * (\<bar>t\<bar> div ticks_per_second)"

subsection \<open>\<^verbatim>\<open>scandir_recursive\<close>\<close>

text \<open>The struct \<^verbatim>\<open>FileInfo\<close>; its field \<^verbatim>\<open>size\<close> is \<open>size_field\<close> here.\<close>

record FileInfo =
  path :: string
  name :: string
  size_field :: "64 word"
  mtime :: int
  is_directory :: bool
  is_symlink :: bool

text \<open>
  A directory entry as the iterator hands it out: its path, the object it names, and the
  reading of the two clocks at the moment the loop body handles it.
\<close>

record dir_entry =
  entry_path :: string
  object :: fs_object
  clocks :: clock_sample

text \<open>
  What happens when the iterator opens a directory to descend into it: it opens, or the
  permission is denied (skipped silently under \<^verbatim>\<open>skip_permission_denied\<close>), or the
  increment raises a \<^verbatim>\<open>filesystem_error\<close>.
\<close>

datatype open_result = Opens | PermissionDenied | OpenFails string

text \<open>A directory tree: an entry, what opening it gives, and its entries in listing order.\<close>

datatype dir_tree = Node dir_entry open_result "dir_tree list"

text \<open>\<^verbatim>\<open>path.filename().string()\<close>: what follows the last separator.\<close>

definition filename :: "string \<Rightarrow> string" where
  "filename p = rev (takeWhile (\<lambda>c. c \<noteq> CHR ''/'') (rev p))"

text \<open>The test \<^verbatim>\<open>!filename.empty() && filename[0] == '.'\<close>.\<close>

definition hidden_name :: "string \<Rightarrow> bool" where
  "hidden_name fname \<longleftrightarrow> fname \<noteq> [] \<and> hd fname = CHR ''.''"

text \<open>
  \<^verbatim>\<open>entry.is_symlink()\<close> looks at the entry itself; \<^verbatim>\<open>entry.is_directory()\<close> is
  \<^verbatim>\<open>is_directory(status())\<close> and follows a symbolic link. The \<^verbatim>\<open>status()\<close> of a directory
  entry answers from the type the iterator holds when the entry is no link, and asks the
  file system for the target when it is one.
\<close>

definition entry_status :: "dir_entry \<Rightarrow> string + file_type" where
  "entry_status e =
     (if own_type (object e) = Symlink then target (object e) else Inr (own_type (object e)))"

definition entry_is_symlink :: "dir_entry \<Rightarrow> bool" where
  "entry_is_symlink e \<longleftrightarrow> symlink_status (object e) = Symlink"

definition entry_is_directory :: "dir_entry \<Rightarrow> string + bool" where
  "entry_is_directory e =
     (case entry_status e of Inl m \<Rightarrow> Inl m | Inr t \<Rightarrow> Inr (t = Directory))"

text \<open>
  The construction of the \<^verbatim>\<open>FileInfo\<close> of an entry (from \<^verbatim>\<open>FileInfo info;\<close> to the cast of
  the time); \<open>Inl\<close> is the \<^verbatim>\<open>what()\<close> of the \<^verbatim>\<open>filesystem_error\<close> a query raised.
\<close>

definition collect_info :: "dir_entry \<Rightarrow> string \<Rightarrow> string + FileInfo" where
  "collect_info e fname =
     (let sym = entry_is_symlink e in
      case (if sym then
              (case entry_is_directory e of Inl m \<Rightarrow> Inl m | Inr dir \<Rightarrow> Inr (dir, 0))
            else
              (case entry_is_directory e of
                 Inl m \<Rightarrow> Inl m
               | Inr dir \<Rightarrow>
                   if dir then Inr (dir, 0)
                   else (case file_size (object e) of Inl m \<Rightarrow> Inl m | Inr n \<Rightarrow> Inr (dir, n)))) of
        Inl m \<Rightarrow> Inl m
      | Inr (dir, sz) \<Rightarrow>
          (case last_write_time (object e) of
             Inl m \<Rightarrow> Inl m
           | Inr ftime \<Rightarrow>
               Inr \<lparr>path = entry_path e, name = fname, size_field = sz,
                    mtime = time_point_cast_seconds
                      (sys_clock_now (clocks e) + (ftime - file_clock_now (clocks e))),
                    is_directory = dir, is_symlink = sym\<rparr>))"

text \<open>The two vectors the traversal fills.\<close>

record scan_state =
  results :: "FileInfo list"
  errors :: "string list"

text \<open>
  The body of the \<^verbatim>\<open>for\<close> loop for one entry at iterator depth \<open>depth\<close> (0 for the entries
  of the root). It returns the state and whether the recursion into the entry is still
  pending, that is whether \<^verbatim>\<open>disable_recursion_pending\<close> was not called.
\<close>

definition visit_entry :: "int \<Rightarrow> bool \<Rightarrow> nat \<Rightarrow> dir_entry \<Rightarrow> scan_state \<Rightarrow> scan_state \<times> bool" where
  "visit_entry max_depth include_hidden depth e s =
     (if max_depth > 0 \<and> int depth \<ge> max_depth then (s, False)
      else
        (let fname = filename (entry_path e) in
         if \<not> include_hidden \<and> hidden_name fname then
           (case entry_is_directory e of
              Inl m \<Rightarrow> (s\<lparr>errors := errors s @ [m]\<rparr>, True)
            | Inr dir \<Rightarrow> (s, \<not> dir))
         else
           (case collect_info e fname of
              Inl m \<Rightarrow> (s\<lparr>errors := errors s @ [m]\<rparr>, True)
            | Inr info \<Rightarrow> (s\<lparr>results := results s @ [info]\<rparr>, True))))"

text \<open>
  The iteration over the entries of one directory and, depth first, over what lies below
  them. After the body, the increment descends into the entry when the recursion is
  pending and the entry itself is a directory (a symbolic link is not followed). \<open>Inl\<close> is
  a \<^verbatim>\<open>filesystem_error\<close> raised by the increment, outside the inner \<^verbatim>\<open>try\<close>, with the state
  at that moment.
\<close>

fun iterate ::
  "int \<Rightarrow> bool \<Rightarrow> nat \<Rightarrow> dir_tree list \<Rightarrow> scan_state \<Rightarrow> (string \<times> scan_state) + scan_state" where
  "iterate max_depth include_hidden depth [] s = Inr s"
| "iterate max_depth include_hidden depth (Node e opn entries # rest) s =
     (case visit_entry max_depth include_hidden depth e s of
        (s1, pending) \<Rightarrow>
          (case (if pending \<and> own_type (object e) = Directory then
                   (case opn of
                      Opens \<Rightarrow> iterate max_depth include_hidden (Suc depth) entries s1
                    | PermissionDenied \<Rightarrow> Inr s1
                    | OpenFails m \<Rightarrow> Inl (m, s1))
                 else Inr s1) of
             Inl x \<Rightarrow> Inl x
           | Inr s2 \<Rightarrow> iterate max_depth include_hidden depth rest s2))"

text \<open>
  The outer \<^verbatim>\<open>try\<close> block: the construction of the iterator on the root, the loop, and
  the handler that appends the \<^verbatim>\<open>Fatal error:\<close> text.
\<close>

definition traverse :: "open_result \<Rightarrow> dir_tree list \<Rightarrow> int \<Rightarrow> bool \<Rightarrow> scan_state" where
  "traverse root_open root_entries max_depth include_hidden =
     (let s0 = \<lparr>results = [], errors = []\<rparr> in
      case (case root_open of
              Opens \<Rightarrow> iterate max_depth include_hidden 0 root_entries s0
            | PermissionDenied \<Rightarrow> Inr s0
            | OpenFails m \<Rightarrow> Inl (m, s0)) of
        Inl (m, s) \<Rightarrow> s\<lparr>errors := errors s @ [''Fatal error: '' @ m]\<rparr>
      | Inr s \<Rightarrow> s)"

text \<open>\<^verbatim>\<open>err.find("Fatal error:") == 0\<close>: the text starts with these twelve characters.\<close>

definition is_fatal :: "string \<Rightarrow> bool" where
  "is_fatal err \<longleftrightarrow> take 12 err = ''Fatal error:''"

text \<open>
  \<^verbatim>\<open>scandir_recursive(root_path, max_depth, include_hidden)\<close>. The file system answers
  the two checks on the root; \<open>root_open\<close> and \<open>root_entries\<close> are what the iterator finds
  there. The value returned is the list of the \<^verbatim>\<open>FileInfo\<close> dictionaries.
\<close>

definition scandir_recursive ::
  "filesystem \<Rightarrow> open_result \<Rightarrow> dir_tree list \<Rightarrow> string \<Rightarrow> int \<Rightarrow> bool \<Rightarrow> error + FileInfo list" where
  "scandir_recursive fs root_open root_entries root_path max_depth include_hidden =
     (case fs_exists (fs root_path) of
        Inl e \<Rightarrow> Inl e
      | Inr ex \<Rightarrow>
          if \<not> ex then Inl (RuntimeError (''Path does not exist: '' @ root_path))
          else (case fs_is_directory (fs root_path) of
            Inl e \<Rightarrow> Inl e
          | Inr dir \<Rightarrow>
              if \<not> dir then Inl (RuntimeError (''Path is not a directory: '' @ root_path))
              else (let s = traverse root_open root_entries max_depth include_hidden in
                case find is_fatal (errors s) of
                  Some err \<Rightarrow> Inl (RuntimeError err)
                | None \<Rightarrow> Inr (results s))))"

subsection \<open>\<^verbatim>\<open>get_file_info\<close>\<close>

text \<open>
  The values the function collects before it builds the dictionary, under the names of
  its local variables (\<^verbatim>\<open>is_directory\<close> is \<open>is_directory_val\<close> here). The two
  decomposition fields \<^verbatim>\<open>extension\<close> and \<^verbatim>\<open>parent\<close> are left out: no property below reads
  them.
\<close>

record file_details =
  info_path :: string
  info_name :: string
  is_regular_file :: bool
  is_directory_val :: bool
  is_symlink_val :: bool
  is_block_file :: bool
  is_character_file :: bool
  is_fifo :: bool
  is_socket :: bool
  size_val :: "64 word"
  mtime_val :: int
  perms_val :: "32 word"
  is_readable :: bool
  is_writable :: bool
  is_executable :: bool

text \<open>
  \<^verbatim>\<open>get_file_info(file_path)\<close>, with the reading of the two clocks it takes. The type
  fields come from \<^verbatim>\<open>fs::status\<close>, which follows a link; only \<^verbatim>\<open>is_symlink\<close> comes from
  \<^verbatim>\<open>fs::symlink_status\<close>. The owner bits are octal 400, 200 and 100.
\<close>

definition get_file_info :: "filesystem \<Rightarrow> clock_sample \<Rightarrow> string \<Rightarrow> error + file_details" where
  "get_file_info fs clk file_path =
     (let ob = fs file_path in
      case fs_exists ob of
        Inl e \<Rightarrow> Inl e
      | Inr ex \<Rightarrow>
          if \<not> ex then Inl (RuntimeError (''Path does not exist: '' @ file_path))
          else (case status ob of
            Inl m \<Rightarrow> Inl (FilesystemError m)
          | Inr st \<Rightarrow>
              (let symlink_st = symlink_status ob in
               case (if st = Regular then
                       (case file_size ob of Inl m \<Rightarrow> Inl (FilesystemError m) | Inr n \<Rightarrow> Inr n)
                     else Inr 0) of
                 Inl e \<Rightarrow> Inl e
               | Inr sz \<Rightarrow>
                   (case last_write_time ob of
                      Inl m \<Rightarrow> Inl (FilesystemError m)
                    | Inr ftime \<Rightarrow>
                        Inr \<lparr>info_path = file_path, info_name = filename file_path,
                             is_regular_file = (st = Regular),
                             is_directory_val = (st = Directory),
                             is_symlink_val = (symlink_st = Symlink),
                             is_block_file = (st = Block),
                             is_character_file = (st = Character),
                             is_fifo = (st = Fifo),
                             is_socket = (st = Socket),
                             size_val = sz,
                             mtime_val = time_point_cast_seconds
                               (sys_clock_now clk + (ftime - file_clock_now clk)),
                             perms_val = permissions ob,
                             is_readable = (permissions ob AND 256 \<noteq> 0),
                             is_writable = (permissions ob AND 128 \<noteq> 0),
                             is_executable = (permissions ob AND 64 \<noteq> 0)\<rparr>))))"

subsection \<open>Trees cut at a depth, trees without hidden entries\<close>

text \<open>The forest cut below \<open>k\<close> levels: the entries at nesting level at most \<open>k\<close> remain.\<close>

primrec prune :: "nat \<Rightarrow> dir_tree list \<Rightarrow> dir_tree list" where
  "prune 0 ts = []"
| "prune (Suc k) ts = map (\<lambda>t. case t of Node e opn entries \<Rightarrow> Node e opn (prune k entries)) ts"

text \<open>The entries of a forest, and the nesting level of its deepest entry.\<close>

fun all_entries :: "dir_tree list \<Rightarrow> dir_entry list" where
  "all_entries [] = []"
| "all_entries (Node e opn entries # rest) = e # all_entries entries @ all_entries rest"

fun height :: "dir_tree list \<Rightarrow> nat" where
  "height [] = 0"
| "height (Node e opn entries # rest) = max (Suc (height entries)) (height rest)"

text \<open>The forest without its hidden entries and everything below them.\<close>

fun strip_hidden :: "dir_tree list \<Rightarrow> dir_tree list" where
  "strip_hidden [] = []"
| "strip_hidden (Node e opn entries # rest) =
     (if hidden_name (filename (entry_path e)) then strip_hidden rest
      else Node e opn (strip_hidden entries) # strip_hidden rest)"

text \<open>The state a traversal ended in, whether it ended normally or by an exception.\<close>

definition final_state :: "(string \<times> scan_state) + scan_state \<Rightarrow> scan_state" where
  "final_state r = (case r of Inl (m, s) \<Rightarrow> s | Inr s \<Rightarrow> s)"

definition thrown :: "(string \<times> scan_state) + scan_state \<Rightarrow> string option" where
  "thrown r = (case r of Inl (m, s) \<Rightarrow> Some m | Inr s \<Rightarrow> None)"

text \<open>
  Two traversal outcomes agree when they raised the same exception, or none, and hold the
  same records.
\<close>

definition agree :: "(string \<times> scan_state) + scan_state \<Rightarrow> (string \<times> scan_state) + scan_state \<Rightarrow> bool" where
  "agree r r' \<longleftrightarrow> thrown r = thrown r' \<and> results (final_state r) = results (final_state r')"

subsection \<open>What a traversal finds, read off the tree\<close>

text \<open>
  The tree a traversal with the limit \<open>max_depth\<close> looks at: the whole tree when there is
  no limit, the tree cut below that level otherwise.
\<close>

definition limit :: "int \<Rightarrow> dir_tree list \<Rightarrow> dir_tree list" where
  "limit max_depth ts = (if 0 < max_depth then prune (nat max_depth) ts else ts)"

text \<open>
  The records the specification asks for, in the order of a depth-first walk: an entry
  that is hidden, when hidden entries are excluded, gives nothing and nothing below it
  does; every other entry gives its record when its queries succeed, followed by what its
  own entries give when it is a directory that opens.
\<close>

fun all_records :: "bool \<Rightarrow> dir_tree list \<Rightarrow> FileInfo list" where
  "all_records include_hidden [] = []"
| "all_records include_hidden (Node e opn entries # rest) =
     (if \<not> include_hidden \<and> hidden_name (filename (entry_path e)) then
        all_records include_hidden rest
      else
        (case collect_info e (filename (entry_path e)) of Inl m \<Rightarrow> [] | Inr info \<Rightarrow> [info]) @
        (if own_type (object e) = Directory \<and> opn = Opens then all_records include_hidden entries
         else []) @
        all_records include_hidden rest)"

text \<open>
  The diagnostics, in the same order: for every entry the walk comes to, the text of the
  \<^verbatim>\<open>filesystem_error\<close> a query on it raises, if one does. For an excluded hidden entry the
  only query is \<^verbatim>\<open>is_directory()\<close>.
\<close>

fun all_diagnostics :: "bool \<Rightarrow> dir_tree list \<Rightarrow> string list" where
  "all_diagnostics include_hidden [] = []"
| "all_diagnostics include_hidden (Node e opn entries # rest) =
     (if \<not> include_hidden \<and> hidden_name (filename (entry_path e)) then
        (case entry_is_directory e of Inl m \<Rightarrow> [m] | Inr dir \<Rightarrow> []) @
        all_diagnostics include_hidden rest
      else
        (case collect_info e (filename (entry_path e)) of Inl m \<Rightarrow> [m] | Inr info \<Rightarrow> []) @
        (if own_type (object e) = Directory \<and> opn = Opens then all_diagnostics include_hidden entries
         else []) @
        all_diagnostics include_hidden rest)"

text \<open>No directory the walk descends into fails to open with an error.\<close>

fun no_open_failure :: "bool \<Rightarrow> dir_tree list \<Rightarrow> bool" where
  "no_open_failure include_hidden [] = True"
| "no_open_failure include_hidden (Node e opn entries # rest) =
     (if \<not> include_hidden \<and> hidden_name (filename (entry_path e)) then
        no_open_failure include_hidden rest
      else
        (if own_type (object e) = Directory then
           (case opn of
              Opens \<Rightarrow> no_open_failure include_hidden entries
            | PermissionDenied \<Rightarrow> True
            | OpenFails m \<Rightarrow> False)
         else True) \<and>
        no_open_failure include_hidden rest)"

subsection \<open>Concrete inputs\<close>

text \<open>
  A stand-in for the hash primitive, to run the model on: its state is the input fed so
  far, and its output is the first bytes of that input, padded with zeros.
\<close>

definition list_engine :: "byte list hash_engine" where
  "list_engine =
     \<lparr>blake3_hasher_init = [],
      blake3_hasher_update = (\<lambda>h bs. h @ bs),
      blake3_hasher_finalize = (\<lambda>h n. take n (h @ replicate n 0))\<rparr>"

definition regular_file :: "byte list \<Rightarrow> fs_object" where
  "regular_file bs =
     \<lparr>own_type = Regular, target = Inr Regular, stat_error = None, file_size = Inr (of_nat (length bs)),
      last_write_time = Inr 1700000000123456789, permissions = 420,
      opens = True, content = bs, read_error = False\<rparr>"

definition missing_object :: fs_object where
  "missing_object =
     \<lparr>own_type = NotFound, target = Inr NotFound, stat_error = None, file_size = Inl ''No such file or directory'',
      last_write_time = Inl ''No such file or directory'', permissions = 0,
      opens = False, content = [], read_error = False\<rparr>"

text \<open>A character device that opens and is at end of file at once, as \<^verbatim>\<open>/dev/null\<close> is.\<close>

definition null_device :: fs_object where
  "null_device =
     \<lparr>own_type = Character, target = Inr Character, stat_error = None,
      file_size = Inl ''Operation not supported'',
      last_write_time = Inr 1700000000000000000, permissions = 438,
      opens = True, content = [], read_error = False\<rparr>"



text \<open>
  The file \<^verbatim>\<open>a.txt\<close> holds the five bytes of \<^verbatim>\<open>hello\<close>; \<^verbatim>\<open>/dev/zero\<close> is a character device
  like \<^verbatim>\<open>/dev/null\<close>, and the host below knows that its stream has no end.
\<close>

definition sample_fs :: filesystem where
  "sample_fs p =
     (if p = ''a.txt'' then regular_file [104, 101, 108, 108, 111]
      else if p = ''/dev/null'' then null_device
      else if p = ''/dev/zero'' then null_device
      else missing_object)"

text \<open>
  A host with 16 GiB for one buffer, vectors of up to \<open>10 ^ 9\<close> slots, room for 30000 threads and for the buffers of 16384
  workers, and 8 processing units.
\<close>

definition sample_host :: host where
  "sample_host =
     \<lparr>alloc_limit = 17179869184, vectors_ok = (\<lambda>jobs. jobs \<le> 1000000000),
      threads_available = 30000,
      buffer_ok = (\<lambda>w. w < 16384), hardware_concurrency = 8,
      never_ends = (\<lambda>p. p = ''/dev/zero'')\<rparr>"

definition directory_object :: fs_object where
  "directory_object =
     \<lparr>own_type = Directory, target = Inr Directory, stat_error = None,
      file_size = Inl ''Is a directory'',
      last_write_time = Inr 1700000000987654321, permissions = 493,
      opens = True, content = [], read_error = True\<rparr>"

text \<open>A symbolic link whose target is a directory.\<close>

definition link_to_directory :: fs_object where
  "link_to_directory =
     \<lparr>own_type = Symlink, target = Inr Directory, stat_error = None,
      file_size = Inl ''Is a directory'',
      last_write_time = Inr 1700000000987654321, permissions = 493,
      opens = True, content = [], read_error = True\<rparr>"

text \<open>A named pipe: \<^verbatim>\<open>file_size\<close> raises on it.\<close>

definition fifo_object :: fs_object where
  "fifo_object =
     \<lparr>own_type = Fifo, target = Inr Fifo, stat_error = None,
      file_size = Inl ''filesystem error: cannot get file size: Operation not supported [root/pipe]'',
      last_write_time = Inr 1700000000000000000, permissions = 420,
      opens = True, content = [], read_error = False\<rparr>"

definition sample_clock :: clock_sample where
  "sample_clock = \<lparr>file_clock_now = 1700000100000000000, sys_clock_now = 1700000100000000000\<rparr>"

definition entry_at :: "string \<Rightarrow> fs_object \<Rightarrow> dir_entry" where
  "entry_at p ob = \<lparr>entry_path = p, object = ob, clocks = sample_clock\<rparr>"

text \<open>
  The directory \<^verbatim>\<open>root\<close> holds the file \<^verbatim>\<open>a.txt\<close>, the hidden directory \<^verbatim>\<open>.hidden\<close> with
  the file \<^verbatim>\<open>b.txt\<close>, the directory \<^verbatim>\<open>sub\<close> with the file \<^verbatim>\<open>c.txt\<close> and the directory
  \<^verbatim>\<open>deep\<close>, which holds the file \<^verbatim>\<open>d.txt\<close>, then the pipe \<^verbatim>\<open>pipe\<close>, and the link \<^verbatim>\<open>lnk\<close> to
  a directory.
\<close>

definition sample_entries :: "dir_tree list" where
  "sample_entries =
     [Node (entry_at ''root/a.txt'' (regular_file [104, 101, 108, 108, 111])) Opens [],
      Node (entry_at ''root/.hidden'' directory_object) Opens
        [Node (entry_at ''root/.hidden/b.txt'' (regular_file [98])) Opens []],
      Node (entry_at ''root/sub'' directory_object) Opens
        [Node (entry_at ''root/sub/c.txt'' (regular_file [99, 99])) Opens [],
         Node (entry_at ''root/sub/deep'' directory_object) Opens
           [Node (entry_at ''root/sub/deep/d.txt'' (regular_file [100])) Opens []]],
      Node (entry_at ''root/pipe'' fifo_object) Opens [],
      Node (entry_at ''root/lnk'' link_to_directory) Opens []]"

text \<open>The same directory without the pipe.\<close>

definition sample_entries_without_pipe :: "dir_tree list" where
  "sample_entries_without_pipe =
     [Node (entry_at ''root/a.txt'' (regular_file [104, 101, 108, 108, 111])) Opens [],
      Node (entry_at ''root/.hidden'' directory_object) Opens
        [Node (entry_at ''root/.hidden/b.txt'' (regular_file [98])) Opens []],
      Node (entry_at ''root/sub'' directory_object) Opens
        [Node (entry_at ''root/sub/c.txt'' (regular_file [99, 99])) Opens [],
         Node (entry_at ''root/sub/deep'' directory_object) Opens
           [Node (entry_at ''root/sub/deep/d.txt'' (regular_file [100])) Opens []]],
      Node (entry_at ''root/lnk'' link_to_directory) Opens []]"

text \<open>
  A hidden symbolic link that cannot be resolved, and a directory whose modification time
  cannot be read.
\<close>

definition looping_link :: fs_object where
  "looping_link =
     \<lparr>own_type = Symlink,
      target = Inl ''filesystem error: status: Too many levels of symbolic links [root/.loop]'',
      stat_error = None, file_size = Inl ''Too many levels of symbolic links'',
      last_write_time = Inl ''Too many levels of symbolic links'', permissions = 511,
      opens = False, content = [], read_error = False\<rparr>"

definition directory_without_time :: fs_object where
  "directory_without_time =
     \<lparr>own_type = Directory, target = Inr Directory, stat_error = None,
      file_size = Inl ''Is a directory'',
      last_write_time = Inl ''filesystem error: cannot get file time: Input/output error [root/old]'',
      permissions = 493, opens = True, content = [], read_error = True\<rparr>"

text \<open>
  The directory \<^verbatim>\<open>root\<close> with that link as \<^verbatim>\<open>.loop\<close>, that directory as \<^verbatim>\<open>old\<close> holding the
  file \<^verbatim>\<open>e.txt\<close>, the pipe and the link to a directory.
\<close>

definition failing_entries :: "dir_tree list" where
  "failing_entries =
     [Node (entry_at ''root/.loop'' looping_link) Opens [],
      Node (entry_at ''root/old'' directory_without_time) Opens
        [Node (entry_at ''root/old/e.txt'' (regular_file [101])) Opens []],
      Node (entry_at ''root/pipe'' fifo_object) Opens [],
      Node (entry_at ''root/lnk'' link_to_directory) Opens []]"

text \<open>The directory \<^verbatim>\<open>root\<close> with a directory \<^verbatim>\<open>sub\<close> that fails to open with an error.\<close>

definition broken_entries :: "dir_tree list" where
  "broken_entries =
     [Node (entry_at ''root/a.txt'' (regular_file [104, 101, 108, 108, 111])) Opens [],
      Node (entry_at ''root/sub'' directory_object)
        (OpenFails ''filesystem error: cannot increment recursive directory iterator: Input/output error'')
        [],
      Node (entry_at ''root/lnk'' link_to_directory) Opens []]"

definition scan_fs :: filesystem where
  "scan_fs p =
     (if p = ''root'' then directory_object
      else if p = ''root/lnk'' then link_to_directory
      else if p = ''root/a.txt'' then regular_file [104, 101, 108, 108, 111]
      else missing_object)"

definition file_record :: "string \<Rightarrow> string \<Rightarrow> 64 word \<Rightarrow> FileInfo" where
  "file_record p n sz =
     \<lparr>path = p, name = n, size_field = sz, mtime = 1700000000, is_directory = False,
      is_symlink = False\<rparr>"

definition directory_record :: "string \<Rightarrow> string \<Rightarrow> bool \<Rightarrow> FileInfo" where
  "directory_record p n link =
     \<lparr>path = p, name = n, size_field = 0, mtime = 1700000000, is_directory = True,
      is_symlink = link\<rparr>"

section \<open>Properties\<close>

lemma read_loop_stopped: "\<not> stream_ok f \<Longrightarrow> read_loop upd cs f h = Some (f, h)"
  by (subst read_loop.simps) simp

lemma read_loop_eof:
  "0 < cs \<Longrightarrow> good f \<Longrightarrow> \<not> device_error f \<Longrightarrow>
   read_loop upd cs f h =
     Some (f\<lparr>unread := [], eofbit := True, failbit := True, gcount := length (unread f) mod cs\<rparr>,
           feed_chunks upd cs (unread f) h)"
proof (induction "length (unread f)" arbitrary: f h rule: less_induct)
  case less
  show ?case
  proof (cases "cs \<le> length (unread f)")
    case True
    let ?f' = "f\<lparr>unread := drop cs (unread f), gcount := cs\<rparr>"
    have rd: "istream_read f cs = (?f', take cs (unread f))"
      using less.prems True by (simp add: istream_read_def good_def)
    have g': "good ?f'" "\<not> device_error ?f'" using less.prems by (simp_all add: good_def)
    have lt: "length (unread ?f') < length (unread f)" using True less.prems by simp
    have ne: "unread f \<noteq> []" using True less.prems by auto
    have ok: "stream_ok f" using less.prems by (simp add: good_def stream_ok_def)
    have "read_loop upd cs f h = read_loop upd cs ?f' (upd h (take cs (unread f)))"
      using ok rd less.prems(1) True by (subst read_loop.simps) simp
    also have "\<dots> = Some (?f'\<lparr>unread := [], eofbit := True, failbit := True, gcount := length (unread ?f') mod cs\<rparr>,
           feed_chunks upd cs (unread ?f') (upd h (take cs (unread f))))"
      by (rule less.hyps [OF lt less.prems(1) g'])
    also have "\<dots> = Some (f\<lparr>unread := [], eofbit := True, failbit := True, gcount := length (unread f) mod cs\<rparr>,
           feed_chunks upd cs (unread f) h)"
      using True less.prems(1) ne
      by (simp add: feed_chunks.simps [of upd cs "unread f"] le_mod_geq)
    finally show ?thesis .
  next
    case False
    let ?f' = "f\<lparr>unread := [], eofbit := True, failbit := True, gcount := length (unread f)\<rparr>"
    have rd: "istream_read f cs = (?f', unread f)"
      using less.prems False by (simp add: istream_read_def good_def)
    have ok: "stream_ok f" using less.prems by (simp add: good_def stream_ok_def)
    have nok: "\<not> stream_ok ?f'" by (simp add: stream_ok_def)
    have "read_loop upd cs f h = read_loop upd cs ?f' (if 0 < length (unread f) then upd h (unread f) else h)"
      using ok rd by (subst read_loop.simps) simp
    also have "\<dots> = Some (?f', (if 0 < length (unread f) then upd h (unread f) else h))"
      by (rule read_loop_stopped [OF nok])
    also have "\<dots> = Some (f\<lparr>unread := [], eofbit := True, failbit := True, gcount := length (unread f) mod cs\<rparr>,
           feed_chunks upd cs (unread f) h)"
      using False less.prems(1)
      by (simp add: feed_chunks.simps [of upd cs "unread f"] feed_chunks.simps [of upd cs "[]"])
    finally show ?thesis .
  qed
qed

lemma read_loop_bad:
  "0 < cs \<Longrightarrow> good f \<Longrightarrow> device_error f \<Longrightarrow>
   \<exists>f' h'. read_loop upd cs f h = Some (f', h') \<and> badbit f'"
proof (induction "length (unread f)" arbitrary: f h rule: less_induct)
  case less
  have ok: "stream_ok f" using less.prems by (simp add: good_def stream_ok_def)
  show ?case
  proof (cases "cs \<le> length (unread f)")
    case True
    let ?f' = "f\<lparr>unread := drop cs (unread f), gcount := cs\<rparr>"
    have rd: "istream_read f cs = (?f', take cs (unread f))"
      using less.prems True by (simp add: istream_read_def good_def)
    have g': "good ?f'" "device_error ?f'" using less.prems by (simp_all add: good_def)
    have lt: "length (unread ?f') < length (unread f)" using True less.prems by simp
    have "read_loop upd cs f h = read_loop upd cs ?f' (upd h (take cs (unread f)))"
      using ok rd less.prems(1) True by (subst read_loop.simps) simp
    with less.hyps [OF lt less.prems(1) g', of "upd h (take cs (unread f))"]
    show ?thesis by simp
  next
    case False
    let ?f' = "f\<lparr>unread := [], badbit := True, gcount := 0\<rparr>"
    have rd: "istream_read f cs = (?f', [])"
      using less.prems False by (simp add: istream_read_def good_def)
    have nok: "\<not> stream_ok ?f'" by (simp add: stream_ok_def)
    have "read_loop upd cs f h = read_loop upd cs ?f' h"
      using ok rd by (subst read_loop.simps) simp
    also have "\<dots> = Some (?f', h)"
      by (rule read_loop_stopped [OF nok])
    finally show ?thesis by simp
  qed
qed

lemma istream_read_zero:
  "good f \<Longrightarrow> istream_read f 0 = (f\<lparr>gcount := 0\<rparr>, [])"
  by (simp add: istream_read_def good_def)

lemma read_loop_zero_aux:
  assumes "read_loop upd cs f h = Some r"
  shows "cs = 0 \<longrightarrow> good f \<longrightarrow> False"
proof (rule read_loop.raw_induct [where P = "\<lambda>upd cs f h r. cs = 0 \<longrightarrow> good f \<longrightarrow> False", OF _ assms])
  fix rl :: "('a \<Rightarrow> byte list \<Rightarrow> 'a) \<Rightarrow> nat \<Rightarrow> ifstream \<Rightarrow> 'a \<Rightarrow> (ifstream \<times> 'a) option"
  fix upd cs f h r
  assume IH: "\<And>u c g k y. rl u c g k = Some y \<Longrightarrow> c = 0 \<longrightarrow> good g \<longrightarrow> False"
  assume body: "(if stream_ok f
      then case istream_read f cs of
           (file', buffer) \<Rightarrow>
             rl upd cs file'
              (if 0 < gcount file'
               then upd h (take (gcount file') buffer) else h)
      else Some (f, h)) = Some r"
  show "cs = 0 \<longrightarrow> good f \<longrightarrow> False"
  proof (intro impI)
    assume z: "cs = 0" and g: "good f"
    have ok: "stream_ok f" using g by (simp add: good_def stream_ok_def)
    have g': "good (f\<lparr>gcount := 0\<rparr>)" using g by (simp add: good_def)
    from body ok z istream_read_zero [OF g]
    have "rl upd 0 (f\<lparr>gcount := 0\<rparr>) h = Some r" by simp
    from IH [OF this] g' show False by simp
  qed
qed

lemma read_loop_zero: "good f \<Longrightarrow> read_loop upd 0 f h = None"
  using read_loop_zero_aux [of upd 0 f h] by (cases "read_loop upd 0 f h") auto

lemma feed_chunks_insensitive:
  "chunk_insensitive E \<Longrightarrow> 0 < cs \<Longrightarrow>
   feed_chunks (blake3_hasher_update E) cs bs h = (if bs = [] then h else blake3_hasher_update E h bs)"
proof (induction "length bs" arbitrary: bs h rule: less_induct)
  case less
  show ?case
  proof (cases "bs = []")
    case True then show ?thesis by (simp add: feed_chunks.simps)
  next
    case False
    have lt: "length (drop cs bs) < length bs" using False less.prems by simp
    have "feed_chunks (blake3_hasher_update E) cs bs h
        = feed_chunks (blake3_hasher_update E) cs (drop cs bs) (blake3_hasher_update E h (take cs bs))"
      using False less.prems by (subst feed_chunks.simps) simp
    also have "\<dots> = (if drop cs bs = [] then blake3_hasher_update E h (take cs bs)
         else blake3_hasher_update E (blake3_hasher_update E h (take cs bs)) (drop cs bs))"
      by (rule less.hyps [OF lt less.prems])
    also have "\<dots> = blake3_hasher_update E h bs"
      using less.prems(1) by (auto simp: chunk_insensitive_def)
    finally show ?thesis using False by simp
  qed
qed

lemma good_open: "opens ob \<Longrightarrow> good (ifstream_open ob)"
  by (simp add: good_def ifstream_open_def)

lemma read_loop_open:
  assumes "0 < cs" and "opens ob" and "\<not> read_error ob"
  shows "\<exists>f'. read_loop upd cs (ifstream_open ob) h = Some (f', feed_chunks upd cs (content ob) h)
              \<and> \<not> badbit f'"
proof -
  have "\<not> device_error (ifstream_open ob)" using assms by (simp add: ifstream_open_def)
  from read_loop_eof [OF assms(1) good_open [OF assms(2)] this, of upd h]
  show ?thesis by (simp add: ifstream_open_def)
qed

lemma read_loop_open_bad:
  assumes "0 < cs" and "opens ob" and "read_error ob"
  shows "\<exists>f' h'. read_loop upd cs (ifstream_open ob) h = Some (f', h') \<and> badbit f'"
proof -
  have "device_error (ifstream_open ob)" using assms by (simp add: ifstream_open_def)
  from read_loop_bad [OF assms(1) good_open [OF assms(2)] this] show ?thesis .
qed

lemma calculate_blake3_regular:
  assumes "0 < cs" and "cs \<le> alloc_limit M \<and> cs \<le> PTRDIFF_MAX" and "status (fs p) = Inr Regular"
  shows "calculate_blake3 E M fs p cs =
    Some (if \<not> opens (fs p) then Inl (RuntimeError (''Cannot open file: '' @ p))
          else if read_error (fs p) then Inl (RuntimeError (''Error reading file: '' @ p))
          else Inr (hex_encode (blake3_hasher_finalize E
                 (feed_chunks (blake3_hasher_update E) cs (content (fs p)) (blake3_hasher_init E))
                 BLAKE3_OUT_LEN)))"
proof (cases "opens (fs p)")
  case False
  then show ?thesis using assms(2,3)
    by (simp add: calculate_blake3_def fs_exists_def fs_is_regular_file_def ifstream_open_def)
next
  case True
  show ?thesis
  proof (cases "read_error (fs p)")
    case True
    from read_loop_open_bad [OF assms(1) \<open>opens (fs p)\<close> True,
        of "blake3_hasher_update E" "blake3_hasher_init E"]
    obtain f' h' where
      "read_loop (blake3_hasher_update E) cs (ifstream_open (fs p)) (blake3_hasher_init E) = Some (f', h')"
      and "badbit f'" by blast
    then show ?thesis using assms(2,3) True \<open>opens (fs p)\<close>
      by (simp add: calculate_blake3_def fs_exists_def fs_is_regular_file_def ifstream_open_def)
  next
    case False
    from read_loop_open [OF assms(1) \<open>opens (fs p)\<close> False,
        of "blake3_hasher_update E" "blake3_hasher_init E"]
    obtain f' where
      "read_loop (blake3_hasher_update E) cs (ifstream_open (fs p)) (blake3_hasher_init E)
         = Some (f', feed_chunks (blake3_hasher_update E) cs (content (fs p)) (blake3_hasher_init E))"
      and "\<not> badbit f'" by blast
    then show ?thesis using assms(2,3) False \<open>opens (fs p)\<close>
      by (simp add: calculate_blake3_def fs_exists_def fs_is_regular_file_def ifstream_open_def)
  qed
qed

lemma calculate_blake3_bad_alloc:
  assumes "alloc_limit M < cs \<or> PTRDIFF_MAX < cs" and "status (fs p) = Inr Regular"
  shows "calculate_blake3 E M fs p cs = Some (Inl BadAlloc)"
  using assms by (simp add: calculate_blake3_def fs_exists_def fs_is_regular_file_def)

lemma calculate_blake3_not_regular:
  assumes "status (fs p) \<noteq> Inr Regular"
  shows "calculate_blake3 E M fs p cs =
    Some (case status (fs p) of
            Inl m \<Rightarrow> Inl (FilesystemError m)
          | Inr t \<Rightarrow> if t = NotFound then Inl (RuntimeError (''File does not exist: '' @ p))
                     else Inl (RuntimeError (''Path is not a regular file: '' @ p)))"
  using assms
  by (auto simp: calculate_blake3_def fs_exists_def fs_is_regular_file_def split: sum.splits)

lemma calculate_blake3_zero:
  assumes "status (fs p) = Inr Regular" and "opens (fs p)"
  shows "calculate_blake3 E M fs p 0 = None"
proof -
  have "read_loop (blake3_hasher_update E) 0 (ifstream_open (fs p)) (blake3_hasher_init E) = None"
    by (rule read_loop_zero [OF good_open [OF assms(2)]])
  then show ?thesis using assms
    by (simp add: calculate_blake3_def fs_exists_def fs_is_regular_file_def ifstream_open_def)
qed

lemma chunk_insensitive_list_engine: "chunk_insensitive list_engine"
  by (simp add: chunk_insensitive_def list_engine_def)

lemma sample_file_regular:
  "status (sample_fs ''a.txt'') = Inr Regular \<and> opens (sample_fs ''a.txt'') \<and>
   \<not> read_error (sample_fs ''a.txt'') \<and> content (sample_fs ''a.txt'') = [104, 101, 108, 108, 111]"
  by (simp add: sample_fs_def regular_file_def status_def)

text \<open>
  C10. With a chunk size of at least 1 the read loop returns, on every stream a path can
  be opened as, and so does \<^verbatim>\<open>calculate_blake3\<close>. The bound is needed: on an existing
  regular file that opens, a chunk size of 0 makes every read extract nothing and set no
  state bit, and the call never returns.
\<close>

theorem read_loop_terminates:
  "(1 \<le> chunk_size \<longrightarrow>
      (\<exists>r. read_loop upd chunk_size (ifstream_open ob) h = Some r) \<and>
      calculate_blake3 E M fs file_path chunk_size \<noteq> None) \<and>
   (status (fs file_path) = Inr Regular \<and> opens (fs file_path) \<longrightarrow>
      calculate_blake3 E M fs file_path 0 = None)"
proof (intro conjI impI)
  assume cs: "1 \<le> chunk_size"
  then have pos: "0 < chunk_size" by simp
  show "\<exists>r. read_loop upd chunk_size (ifstream_open ob) h = Some r"
  proof (cases "opens ob")
    case False
    then have "\<not> stream_ok (ifstream_open ob)" by (simp add: stream_ok_def ifstream_open_def)
    then have "read_loop upd chunk_size (ifstream_open ob) h = Some (ifstream_open ob, h)"
      by (rule read_loop_stopped)
    then show ?thesis by blast
  next
    case True
    then show ?thesis
      using read_loop_open [OF pos True, of upd h] read_loop_open_bad [OF pos True, of upd h]
      by (cases "read_error ob") blast+
  qed
  show "calculate_blake3 E M fs file_path chunk_size \<noteq> None"
  proof (cases "status (fs file_path) = Inr Regular")
    case True
    show ?thesis
    proof (cases "chunk_size \<le> alloc_limit M \<and> chunk_size \<le> PTRDIFF_MAX")
      case le: True
      from calculate_blake3_regular [where fs = fs and p = file_path and E = E and M = M, OF pos le True]
      show ?thesis by simp
    next
      case False
      then have "alloc_limit M < chunk_size \<or> PTRDIFF_MAX < chunk_size" by auto
      from calculate_blake3_bad_alloc [where fs = fs and p = file_path and E = E and M = M, OF this True]
      show ?thesis by simp
    qed
  next
    case False
    from calculate_blake3_not_regular [where fs = fs and p = file_path and E = E and M = M, OF False]
    show ?thesis by simp
  qed
next
  assume "status (fs file_path) = Inr Regular \<and> opens (fs file_path)"
  then show "calculate_blake3 E M fs file_path 0 = None"
    using calculate_blake3_zero [where fs = fs and p = file_path and E = E and M = M] by blast
qed

theorem read_loop_terminates_witness:
  "(1::nat) \<le> 17 \<and>
   (\<exists>r. read_loop (blake3_hasher_update list_engine) 17 (ifstream_open (sample_fs ''a.txt'')) [] = Some r) \<and>
   calculate_blake3 list_engine sample_host sample_fs ''a.txt'' 17 \<noteq> None \<and>
   status (sample_fs ''a.txt'') = Inr Regular \<and> opens (sample_fs ''a.txt'') \<and>
   calculate_blake3 list_engine sample_host sample_fs ''a.txt'' 0 = None"
  using read_loop_terminates [of 17 "blake3_hasher_update list_engine" "sample_fs ''a.txt''" "[]"
      list_engine sample_host sample_fs "''a.txt''"]
  by (simp add: sample_fs_def regular_file_def status_def)

text \<open>
  C6, as the specification has it, fails on a host with finitely much memory: the buffer of
  \<open>chunk_size\<close> bytes is allocated before the file is opened. On the sample host, hashing
  \<^verbatim>\<open>a.txt\<close> with a chunk size of \<open>2 ^ 62\<close> raises \<^verbatim>\<open>std::bad_alloc\<close>, and with a chunk size of 1
  it gives the digest.
\<close>

theorem chunk_size_independent_counterexample:
  "calculate_blake3 list_engine sample_host sample_fs ''a.txt'' 4611686018427387904 =
     Some (Inl BadAlloc) \<and>
   calculate_blake3 list_engine sample_host sample_fs ''a.txt'' 1 =
     Some (Inr (hex_encode (blake3_hasher_finalize list_engine [104, 101, 108, 108, 111]
       BLAKE3_OUT_LEN)))"
proof (rule conjI)
  have "alloc_limit sample_host < 4611686018427387904 \<or> PTRDIFF_MAX < 4611686018427387904"
    by (simp add: sample_host_def)
  from calculate_blake3_bad_alloc [where fs = sample_fs and p = "''a.txt''" and E = list_engine,
      OF this sample_file_regular [THEN conjunct1]]
  show "calculate_blake3 list_engine sample_host sample_fs ''a.txt'' 4611686018427387904 =
     Some (Inl BadAlloc)" .
next
  have "(1::nat) \<le> alloc_limit sample_host \<and> 1 \<le> PTRDIFF_MAX"
    by (simp add: sample_host_def PTRDIFF_MAX_def)
  from calculate_blake3_regular [where fs = sample_fs and p = "''a.txt''" and E = list_engine
      and cs = 1, OF _ this sample_file_regular [THEN conjunct1]]
  show "calculate_blake3 list_engine sample_host sample_fs ''a.txt'' 1 =
     Some (Inr (hex_encode (blake3_hasher_finalize list_engine [104, 101, 108, 108, 111]
       BLAKE3_OUT_LEN)))"
    unfolding sample_file_regular [THEN conjunct2, THEN conjunct2, THEN conjunct2]
      feed_chunks_insensitive [OF chunk_insensitive_list_engine zero_less_one]
    by (simp add: sample_file_regular list_engine_def)
qed

text \<open>
  C6, amended. When the update of the hash primitive is insensitive to block boundaries,
  \<^verbatim>\<open>calculate_blake3\<close> gives the same result for any two positive chunk sizes whose buffers
  the host can allocate (none above \<^verbatim>\<open>PTRDIFF_MAX\<close> can be), and on a regular file that opens and reads without error that
  result is the hex digest of the bytes of the file, fed at once.
\<close>

theorem chunk_size_independent:
  assumes "chunk_insensitive E" and "0 < c1" and "0 < c2"
    and "c1 \<le> alloc_limit M \<and> c1 \<le> PTRDIFF_MAX" and "c2 \<le> alloc_limit M \<and> c2 \<le> PTRDIFF_MAX"
  shows "calculate_blake3 E M fs p c1 = calculate_blake3 E M fs p c2 \<and>
         (status (fs p) = Inr Regular \<and> opens (fs p) \<and> \<not> read_error (fs p) \<longrightarrow>
            calculate_blake3 E M fs p c1 =
              Some (Inr (hex_encode (blake3_hasher_finalize E
                (if content (fs p) = [] then blake3_hasher_init E
                 else blake3_hasher_update E (blake3_hasher_init E) (content (fs p)))
                BLAKE3_OUT_LEN))))"
proof (cases "status (fs p) = Inr Regular")
  case True
  show ?thesis
    by (simp add: calculate_blake3_regular [where fs = fs and p = p and E = E and M = M, OF assms(2) assms(4) True]
        calculate_blake3_regular [where fs = fs and p = p and E = E and M = M, OF assms(3) assms(5) True]
        feed_chunks_insensitive [OF assms(1) assms(2)] feed_chunks_insensitive [OF assms(1) assms(3)])
next
  case False
  then show ?thesis
    by (simp add: calculate_blake3_not_regular [where fs = fs and p = p and E = E and M = M, OF False])
qed

theorem chunk_size_independent_witness:
  "chunk_insensitive list_engine \<and> (0::nat) < 1 \<and> (0::nat) < 1048576 \<and>
   1 \<le> alloc_limit sample_host \<and> 1 \<le> PTRDIFF_MAX \<and>
   1048576 \<le> alloc_limit sample_host \<and> 1048576 \<le> PTRDIFF_MAX \<and>
   calculate_blake3 list_engine sample_host sample_fs ''a.txt'' 1 =
     calculate_blake3 list_engine sample_host sample_fs ''a.txt'' 1048576 \<and>
   status (sample_fs ''a.txt'') = Inr Regular \<and> opens (sample_fs ''a.txt'') \<and>
   \<not> read_error (sample_fs ''a.txt'') \<and>
   calculate_blake3 list_engine sample_host sample_fs ''a.txt'' 1 =
     Some (Inr (hex_encode (blake3_hasher_finalize list_engine
       (blake3_hasher_update list_engine (blake3_hasher_init list_engine) [104, 101, 108, 108, 111])
       BLAKE3_OUT_LEN)))"
proof -
  have r: "status (sample_fs ''a.txt'') = Inr Regular \<and> opens (sample_fs ''a.txt'') \<and>
           \<not> read_error (sample_fs ''a.txt'')"
    by (simp add: sample_fs_def regular_file_def status_def)
  have c: "content (sample_fs ''a.txt'') = [104, 101, 108, 108, 111]"
    by (simp add: sample_fs_def regular_file_def)
  have a: "1 \<le> alloc_limit sample_host \<and> 1 \<le> PTRDIFF_MAX"
    "1048576 \<le> alloc_limit sample_host \<and> 1048576 \<le> PTRDIFF_MAX"
    by (simp_all add: sample_host_def PTRDIFF_MAX_def)
  from chunk_size_independent [OF chunk_insensitive_list_engine, of 1 1048576 sample_host sample_fs "''a.txt''"] r c a
  show ?thesis by (auto simp: chunk_insensitive_list_engine)
qed

lemma hex_encode_length: "length (hex_encode out) = 2 * BLAKE3_OUT_LEN"
  by (simp add: hex_encode_def length_concat comp_def sum_list_triv)

lemma hex_encode_nonempty: "hex_encode out \<noteq> []"
  using hex_encode_length [of out] by (auto simp: BLAKE3_OUT_LEN_def)

lemma hash_job_closed:
  assumes "hash_results st ! idx = ('''', '''')" and "hash_errors st ! idx = ''''"
    and "\<not> unending M fs (file_paths ! idx)"
  shows "hash_job E M fs exn file_paths idx st =
     Some (st\<lparr>hash_results := (hash_results st)[idx := job_result E fs exn file_paths idx],
              hash_errors := (hash_errors st)[idx := job_error fs exn file_paths idx]\<rparr>)"
proof (cases "exn idx")
  case (Some what)
  have "(hash_results st)[idx := ('''', '''')] = hash_results st"
    using assms(1) by (metis list_update_id)
  then show ?thesis using Some
    by (simp add: hash_job_def Let_def job_result_def job_error_def)
next
  case None
  let ?ob = "fs (file_paths ! idx)"
  have keep_r: "(hash_results st)[idx := ('''', '''')] = hash_results st"
    using assms(1) by (metis list_update_id)
  have keep_e: "(hash_errors st)[idx := ''''] = hash_errors st"
    using assms(2) by (metis list_update_id)
  show ?thesis
  proof (cases "opens ?ob")
    case False
    then show ?thesis using None keep_r
      by (simp add: hash_job_def Let_def job_result_def job_error_def ifstream_open_def)
  next
    case True
    have pos: "(0::nat) < 1024 * 1024" by simp
    show ?thesis
    proof (cases "read_error ?ob")
      case re: True
      from read_loop_open_bad [OF pos True re, of "blake3_hasher_update E" "blake3_hasher_init E"]
      obtain f' h' where
        "read_loop (blake3_hasher_update E) (1024 * 1024) (ifstream_open ?ob) (blake3_hasher_init E)
           = Some (f', h')" and "badbit f'" by blast
      then show ?thesis using None True re keep_r assms(3)
        by (simp add: hash_job_def Let_def job_result_def job_error_def ifstream_open_def)
    next
      case re: False
      from read_loop_open [OF pos True re, of "blake3_hasher_update E" "blake3_hasher_init E"]
      obtain f' where
        "read_loop (blake3_hasher_update E) (1024 * 1024) (ifstream_open ?ob) (blake3_hasher_init E)
           = Some (f', feed_chunks (blake3_hasher_update E) (1024 * 1024) (content ?ob)
                         (blake3_hasher_init E))" and "\<not> badbit f'" by blast
      then show ?thesis using None True re keep_e assms(3)
        by (simp add: hash_job_def Let_def job_result_def job_error_def ifstream_open_def)
    qed
  qed
qed

lemma map_upd_step:
  assumes "k < n"
  shows "(map (\<lambda>i. if i < k then g i else d) [0..<n])[k := g k] = map (\<lambda>i. if i < Suc k then g i else d) [0..<n]"
  using assms by (auto intro!: nth_equalityI simp: nth_list_update less_Suc_eq)

lemma map_upd_past:
  assumes "n \<le> k"
  shows "map (\<lambda>i. if i < Suc k then g i else d) [0..<n] = map (\<lambda>i. if i < k then g i else d) [0..<n]"
  using assms by auto

lemma worker_iteration_inv:
  assumes "pool_inv E fs exn file_paths st" and "\<forall>p\<in>set file_paths. \<not> unending M fs p"
  shows "\<exists>st'. worker_iteration E M fs exn file_paths w st = Some st' \<and>
               pool_inv E fs exn file_paths st' \<and> length (running st') = length (running st)"
proof (cases "w < length (running st) \<and> running st ! w")
  case False
  then show ?thesis using assms by (auto simp: worker_iteration_def)
next
  case True
  let ?k = "next_index st"
  let ?n = "length file_paths"
  let ?st1 = "st\<lparr>next_index := ?k + 1\<rparr>"
  show ?thesis
  proof (cases "?n \<le> ?k")
    case past: True
    have "worker_iteration E M fs exn file_paths w st = Some (?st1\<lparr>running := (running ?st1)[w := False]\<rparr>)"
      using True past by (simp add: worker_iteration_def Let_def)
    moreover have "pool_inv E fs exn file_paths (?st1\<lparr>running := (running ?st1)[w := False]\<rparr>)"
      using assms past by (simp add: pool_inv_def map_upd_past)
    ultimately show ?thesis by simp
  next
    case inside: False
    then have lt: "?k < ?n" by simp
    have r0: "hash_results ?st1 ! ?k = ('''', '''')" and e0: "hash_errors ?st1 ! ?k = ''''"
      using assms lt by (simp_all add: pool_inv_def)
    have norun: "\<not> list_ex (\<lambda>r. \<not> r) (running st)"
      using assms lt by (auto simp: pool_inv_def)
    let ?st' = "?st1\<lparr>hash_results := (hash_results ?st1)[?k := job_result E fs exn file_paths ?k],
              hash_errors := (hash_errors ?st1)[?k := job_error fs exn file_paths ?k]\<rparr>"
    have fin: "\<not> unending M fs (file_paths ! ?k)" using assms(2) lt by simp
    have "worker_iteration E M fs exn file_paths w st = Some ?st'"
      using True inside hash_job_closed [OF r0 e0 fin, of E exn]
      by (simp add: worker_iteration_def Let_def)
    moreover have "pool_inv E fs exn file_paths ?st'"
      using assms lt norun by (simp add: pool_inv_def map_upd_step)
    ultimately show ?thesis by simp
  qed
qed

lemma run_workers_inv:
  assumes "pool_inv E fs exn file_paths st" and "\<forall>p\<in>set file_paths. \<not> unending M fs p"
  shows "\<exists>st'. run_workers E M fs exn file_paths sched st = Some st' \<and>
               pool_inv E fs exn file_paths st' \<and> length (running st') = length (running st)"
  using assms(1)
proof (induction sched arbitrary: st)
  case Nil
  then show ?case by simp
next
  case (Cons w ws)
  from worker_iteration_inv [OF Cons.prems assms(2), of w]
  obtain st1 where 1: "worker_iteration E M fs exn file_paths w st = Some st1"
    and 2: "pool_inv E fs exn file_paths st1" and 3: "length (running st1) = length (running st)"
    by blast
  from Cons.IH [OF 2] obtain st' where "run_workers E M fs exn file_paths ws st1 = Some st'"
    and "pool_inv E fs exn file_paths st'" and "length (running st') = length (running st1)"
    by blast
  then show ?case using 1 3 by simp
qed

lemma pool_inv_init:
  "pool_inv E fs exn file_paths
     \<lparr>next_index = 0, hash_results = replicate (length file_paths) ('''', ''''),
      hash_errors = replicate (length file_paths) '''', running = replicate threads True\<rparr>"
  by (auto simp: pool_inv_def list_ex_iff intro!: nth_equalityI)

lemma resolve_threads_pos: "0 < resolve_threads hw num_threads"
  by (simp add: resolve_threads_def)

lemma pool_inv_joined:
  assumes "pool_inv E fs exn file_paths st" and "\<not> list_ex (\<lambda>r. r) (running st)"
    and "0 < length (running st)"
  shows "hash_results st = map (job_result E fs exn file_paths) [0..<length file_paths] \<and>
         hash_errors st = map (job_error fs exn file_paths) [0..<length file_paths]"
proof -
  from assms(3) obtain r rs where "running st = r # rs" by (cases "running st") auto
  with assms(2) have "list_ex (\<lambda>r. \<not> r) (running st)" by simp
  with assms(1) have "length file_paths < next_index st" by (simp add: pool_inv_def)
  with assms(1) show ?thesis by (simp add: pool_inv_def)
qed

lemma merge_entry_joined:
  assumes "hash_results st = map (job_result E fs exn file_paths) [0..<length file_paths]"
    and "hash_errors st = map (job_error fs exn file_paths) [0..<length file_paths]"
    and "i < length file_paths"
  shows "merge_entry file_paths st d i = put_entry file_paths (expected_entry E fs exn file_paths) d i"
  using assms
  by (auto simp: merge_entry_def put_entry_def expected_entry_def job_result_def job_error_def
      hex_encode_nonempty split: option.splits)

lemma foldl_merge_joined:
  assumes "hash_results st = map (job_result E fs exn file_paths) [0..<length file_paths]"
    and "hash_errors st = map (job_error fs exn file_paths) [0..<length file_paths]"
    and "m \<le> length file_paths"
  shows "foldl (merge_entry file_paths st) d [0..<m] =
         foldl (put_entry file_paths (expected_entry E fs exn file_paths)) d [0..<m]"
  using assms(3)
proof (induction m)
  case 0
  then show ?case by simp
next
  case (Suc m)
  then show ?case using merge_entry_joined [OF assms(1) assms(2), of m] by simp
qed


lemma put_entry_same: "put_entry ks g d i (ks ! i) = Some (g i)"
  by (simp add: put_entry_def)

lemma put_entry_other: "p \<noteq> ks ! i \<Longrightarrow> put_entry ks g d i p = d p"
  by (simp add: put_entry_def)



lemma foldl_put_origin:
  assumes "foldl (put_entry ks g) Map.empty [0..<m] p = Some v"
  shows "\<exists>j<m. ks ! j = p \<and> v = g j"
  using assms
proof (induction m arbitrary: v)
  case 0
  then show ?case by simp
next
  case (Suc m)
  show ?case
  proof (cases "p = ks ! m")
    case True
    with Suc.prems have "v = g m" by (simp add: put_entry_same)
    with True show ?thesis by auto
  next
    case False
    with Suc.prems have "foldl (put_entry ks g) Map.empty [0..<m] p = Some v"
      by (simp add: put_entry_other)
    from Suc.IH [OF this] show ?thesis by (auto simp: less_Suc_eq)
  qed
qed

lemma provides_finite:
  "provides M fs file_paths num_threads \<Longrightarrow> \<forall>p\<in>set file_paths. \<not> unending M fs p"
  by (simp add: provides_def Let_def list_ex_iff)

lemma provides_start:
  assumes "provides M fs file_paths num_threads"
  shows "calculate_blake3_batch E M fs exn file_paths num_threads schedule =
     (case run_workers E M fs exn file_paths schedule
             \<lparr>next_index = 0, hash_results = replicate (length file_paths) ('''', ''''),
              hash_errors = replicate (length file_paths) '''',
              running = replicate (nat (resolve_threads (hardware_concurrency M) num_threads)) True\<rparr> of
        None \<Rightarrow> None
      | Some st \<Rightarrow> if list_ex (\<lambda>r. r) (running st) then None
                   else Some (Returns (build_results file_paths st)))"
proof -
  have "0 < nat (resolve_threads (hardware_concurrency M) num_threads)"
    using resolve_threads_pos [of "hardware_concurrency M" num_threads] by simp
  with assms show ?thesis
    by (auto simp: calculate_blake3_batch_def provides_def Let_def)
qed

lemma batch_returns:
  assumes "calculate_blake3_batch E M fs exn file_paths num_threads schedule = Some r"
    and "provides M fs file_paths num_threads"
  shows "r = Returns (foldl (put_entry file_paths (expected_entry E fs exn file_paths)) Map.empty
               [0..<length file_paths])"
proof -
  let ?st0 = "\<lparr>next_index = 0, hash_results = replicate (length file_paths) ('''', ''''),
      hash_errors = replicate (length file_paths) '''',
      running = replicate (nat (resolve_threads (hardware_concurrency M) num_threads)) True\<rparr>"
  from run_workers_inv [OF pool_inv_init provides_finite [OF assms(2)], of E exn schedule]
  obtain st where run: "run_workers E M fs exn file_paths schedule ?st0 = Some st"
    and inv: "pool_inv E fs exn file_paths st"
    and len: "length (running st) = length (running ?st0)" by blast
  from assms(1) run have joined: "\<not> list_ex (\<lambda>r. r) (running st)"
    and m: "r = Returns (build_results file_paths st)"
    unfolding provides_start [OF assms(2)] by (auto split: if_splits)
  have "0 < length (running st)"
    using len resolve_threads_pos [of "hardware_concurrency M" num_threads] by simp
  from pool_inv_joined [OF inv joined this] foldl_merge_joined [of st E fs exn file_paths]
  show ?thesis unfolding m build_results_def by simp
qed





lemma sample_provides:
  "provides sample_host sample_fs [''a.txt'', ''gone.txt''] 2"
  "provides sample_host sample_fs [''/dev/null''] 1"
  by (simp_all add: provides_def resolve_threads_def sample_host_def unending_def Let_def
      numeral_2_eq_2)






lemma null_device_batch_run:
  "calculate_blake3_batch list_engine sample_host sample_fs no_exception [''/dev/null''] 1 [0, 0] =
     Some (Returns (foldl (put_entry [''/dev/null'']
              (expected_entry list_engine sample_fs no_exception [''/dev/null'']))
            Map.empty [0..<1]))"
proof -
  have "\<exists>st. run_workers list_engine sample_host sample_fs no_exception [''/dev/null''] [0, 0]
           \<lparr>next_index = 0, hash_results = replicate 1 ('''', ''''),
            hash_errors = replicate 1 '''', running = replicate 1 True\<rparr> = Some st \<and>
         running st = [False]"
    by (simp add: worker_iteration_def hash_job_closed unending_def sample_host_def Let_def)
  then have "\<exists>r. calculate_blake3_batch list_engine sample_host sample_fs no_exception
      [''/dev/null''] 1 [0, 0] = Some r"
    unfolding provides_start [OF sample_provides(2)]
    by (auto simp: resolve_threads_def sample_host_def)
  then obtain r where r: "calculate_blake3_batch list_engine sample_host sample_fs no_exception
      [''/dev/null''] 1 [0, 0] = Some r" by blast
  from batch_returns [OF r sample_provides(2)] r show ?thesis by simp
qed

lemma null_device_entry:
  "expected_entry list_engine sample_fs no_exception [''/dev/null''] 0 =
     Hash (hex_encode (blake3_hasher_finalize list_engine (blake3_hasher_init list_engine)
       BLAKE3_OUT_LEN))"
  by (simp add: expected_entry_def no_exception_def sample_fs_def null_device_def
      feed_chunks_insensitive [OF chunk_insensitive_list_engine])

lemma batch_digest_of_regular_file:
  assumes "calculate_blake3_batch E M fs exn file_paths num_threads schedule = Some (Returns m)"
    and "provides M fs file_paths num_threads"
    and "m p = Some (Hash d)"
    and "status (fs p) = Inr Regular"
    and "1024 * 1024 \<le> alloc_limit M"
  shows "calculate_blake3 E M fs p (1024 * 1024) = Some (Inr d)"
proof -
  from batch_returns [OF assms(1,2)] assms(3)
  have "foldl (put_entry file_paths (expected_entry E fs exn file_paths)) Map.empty
          [0..<length file_paths] p = Some (Hash d)" by simp
  from foldl_put_origin [OF this]
  obtain j where j: "j < length file_paths" "file_paths ! j = p"
    and e: "Hash d = expected_entry E fs exn file_paths j" by blast
  from e j(2) have op: "opens (fs p)" and re: "\<not> read_error (fs p)"
    and d: "d = hex_encode (blake3_hasher_finalize E
                 (feed_chunks (blake3_hasher_update E) (1024 * 1024) (content (fs p))
                    (blake3_hasher_init E)) BLAKE3_OUT_LEN)"
    by (auto simp: expected_entry_def split: option.splits if_splits)
  have pos: "(0::nat) < 1024 * 1024" by simp
  have mem: "1024 * 1024 \<le> alloc_limit M \<and> 1024 * 1024 \<le> PTRDIFF_MAX"
    using assms(5) by (simp add: PTRDIFF_MAX_def)
  show ?thesis
    using calculate_blake3_regular [where fs = fs and p = p and E = E and M = M,
        OF pos mem assms(4)] op re d
    by simp
qed

text \<open>
  C3. The worker of the batch and \<^verbatim>\<open>calculate_blake3\<close> do not treat a path alike: the
  worker opens the path as it is, \<^verbatim>\<open>calculate_blake3\<close> first checks that it exists and is a
  regular file. For the character device \<^verbatim>\<open>/dev/null\<close> the batch, run with one worker,
  returns a dictionary whose entry for the path is a digest (of the empty input), and
  \<^verbatim>\<open>calculate_blake3\<close> on the same path, with the chunk size of the worker, raises.
\<close>

theorem batch_digest_of_device:
  "entry_of (calculate_blake3_batch list_engine sample_host sample_fs no_exception [''/dev/null''] 1
      [0, 0]) ''/dev/null'' =
     Some (Hash (hex_encode (blake3_hasher_finalize list_engine (blake3_hasher_init list_engine)
       BLAKE3_OUT_LEN))) \<and>
   calculate_blake3 list_engine sample_host sample_fs ''/dev/null'' (1024 * 1024) =
     Some (Inl (RuntimeError ''Path is not a regular file: /dev/null''))"
proof
  show "entry_of (calculate_blake3_batch list_engine sample_host sample_fs no_exception
      [''/dev/null''] 1 [0, 0]) ''/dev/null'' =
     Some (Hash (hex_encode (blake3_hasher_finalize list_engine (blake3_hasher_init list_engine)
       BLAKE3_OUT_LEN)))"
    unfolding null_device_batch_run entry_of_def option.case outcome.case
    by (simp add: put_entry_same [where ks = "[''/dev/null'']" and i = 0, simplified] null_device_entry)
  have "status (sample_fs ''/dev/null'') = Inr Character"
    by (simp add: sample_fs_def null_device_def status_def)
  then show "calculate_blake3 list_engine sample_host sample_fs ''/dev/null'' (1024 * 1024) =
     Some (Inl (RuntimeError ''Path is not a regular file: /dev/null''))"
    by (simp add: calculate_blake3_not_regular [where fs = sample_fs and p = "''/dev/null''"])
qed

lemma visit_entry_beyond:
  "0 < max_depth \<Longrightarrow> max_depth \<le> int depth \<Longrightarrow>
   visit_entry max_depth include_hidden depth e s = (s, False)"
  by (simp add: visit_entry_def)

lemma visit_entry_within:
  "\<not> (0 < max_depth \<and> max_depth \<le> int depth) \<Longrightarrow>
   visit_entry max_depth include_hidden depth e s = visit_entry 0 include_hidden depth e s"
  by (auto simp: visit_entry_def)

lemma iterate_beyond:
  "0 < max_depth \<Longrightarrow> max_depth \<le> int depth \<Longrightarrow>
   iterate max_depth include_hidden depth ts s = Inr s"
proof (induction ts)
  case Nil
  then show ?case by simp
next
  case (Cons t ts)
  then show ?case by (cases t) (simp add: visit_entry_beyond)
qed

lemma iterate_prune:
  "0 < max_depth \<Longrightarrow>
   iterate max_depth include_hidden depth ts s =
   iterate 0 include_hidden depth (prune (nat max_depth - depth) ts) s"
proof (induction max_depth include_hidden depth ts s rule: iterate.induct)
  case (1 max_depth include_hidden depth s)
  then show ?case by (cases "nat max_depth - depth") simp_all
next
  case (2 max_depth include_hidden depth e opn entries rest s)
  show ?case
  proof (cases "max_depth \<le> int depth")
    case True
    then have "nat max_depth - depth = 0" by simp
    then show ?thesis
      using iterate_beyond [OF "2.prems" True, of include_hidden "Node e opn entries # rest" s]
      by (simp del: iterate.simps add: iterate.simps(1))
  next
    case False
    then obtain k where k: "nat max_depth - depth = Suc k"
      by (cases "nat max_depth - depth") auto
    then have k': "nat max_depth - Suc depth = k" by simp
    have v: "visit_entry max_depth include_hidden depth e s = visit_entry 0 include_hidden depth e s"
      by (rule visit_entry_within) (use False in simp)
    obtain s1 pending where vis: "visit_entry max_depth include_hidden depth e s = (s1, pending)"
      by (cases "visit_entry max_depth include_hidden depth e s")
    let ?inner = "\<lambda>md ents. (if pending \<and> own_type (object e) = Directory then
                   (case opn of
                      Opens \<Rightarrow> iterate md include_hidden (Suc depth) ents s1
                    | PermissionDenied \<Rightarrow> Inr s1
                    | OpenFails m \<Rightarrow> Inl (m, s1))
                 else Inr s1)"
    have inner: "?inner max_depth entries = ?inner 0 (prune k entries)"
    proof (cases "pending \<and> own_type (object e) = Directory \<and> opn = Opens")
      case True
      then have "iterate max_depth include_hidden (Suc depth) entries s1 =
        iterate 0 include_hidden (Suc depth) (prune (nat max_depth - Suc depth) entries) s1"
        using "2.IH"(1) [OF vis [symmetric]] "2.prems" by simp
      then show ?thesis using True k' by simp
    next
      case False
      then show ?thesis by (cases opn) auto
    qed
    have rest: "iterate max_depth include_hidden depth rest s2 =
        iterate 0 include_hidden depth (prune (Suc k) rest) s2"
      if "?inner max_depth entries = Inr s2" for s2
      using "2.IH"(2) [OF vis [symmetric] that "2.prems"] k by simp
    show ?thesis
    proof (cases "?inner max_depth entries")
      case (Inl x)
      then show ?thesis using vis v inner k by simp
    next
      case (Inr s2)
      then show ?thesis using vis v inner k rest [OF Inr] by simp
    qed
  qed
qed

lemma height_prune: "height (prune k ts) \<le> k"
proof (induction k arbitrary: ts)
  case 0
  then show ?case by simp
next
  case (Suc k)
  show ?case
  proof (induction ts)
    case Nil
    then show ?case by simp
  next
    case (Cons t ts)
    then show ?case using Suc [of "case t of Node e opn entries \<Rightarrow> entries"]
      by (cases t) simp
  qed
qed

lemma visit_entry_extends:
  assumes "visit_entry max_depth include_hidden depth e s = (s1, pending)"
  shows "\<exists>rs es. results s1 = results s @ rs \<and> errors s1 = errors s @ es \<and>
           (\<forall>r\<in>set rs. collect_info e (filename (entry_path e)) = Inr r)"
  using assms
  by (auto simp: visit_entry_def Let_def split: if_splits sum.splits)

lemma iterate_extends:
  "\<exists>rs es. results (final_state (iterate max_depth include_hidden depth ts s)) = results s @ rs \<and>
           errors (final_state (iterate max_depth include_hidden depth ts s)) = errors s @ es \<and>
           (\<forall>r\<in>set rs. \<exists>e\<in>set (all_entries ts). collect_info e (filename (entry_path e)) = Inr r)"
proof (induction max_depth include_hidden depth ts s rule: iterate.induct)
  case (1 max_depth include_hidden depth s)
  then show ?case by (simp add: final_state_def)
next
  case (2 max_depth include_hidden depth e opn entries rest s)
  obtain s1 pending where vis: "visit_entry max_depth include_hidden depth e s = (s1, pending)"
    by (cases "visit_entry max_depth include_hidden depth e s")
  from visit_entry_extends [OF vis] obtain rs1 es1 where
    r1: "results s1 = results s @ rs1" and e1: "errors s1 = errors s @ es1"
    and o1: "\<forall>r\<in>set rs1. collect_info e (filename (entry_path e)) = Inr r" by blast
  let ?inner = "(if pending \<and> own_type (object e) = Directory then
                   (case opn of
                      Opens \<Rightarrow> iterate max_depth include_hidden (Suc depth) entries s1
                    | PermissionDenied \<Rightarrow> Inr s1
                    | OpenFails m \<Rightarrow> Inl (m, s1))
                 else Inr s1)"
  have "\<exists>rs es. results (final_state ?inner) = results s1 @ rs \<and>
           errors (final_state ?inner) = errors s1 @ es \<and>
           (\<forall>r\<in>set rs. \<exists>e\<in>set (all_entries entries). collect_info e (filename (entry_path e)) = Inr r)"
  proof (cases "pending \<and> own_type (object e) = Directory \<and> opn = Opens")
    case True
    then show ?thesis using "2.IH"(1) [OF vis [symmetric]] by simp
  next
    case False
    then have "final_state ?inner = s1" by (cases opn) (auto simp: final_state_def)
    then show ?thesis by simp
  qed
  then obtain rs2 es2 where
    r2: "results (final_state ?inner) = results s1 @ rs2"
    and e2: "errors (final_state ?inner) = errors s1 @ es2"
    and o2: "\<forall>r\<in>set rs2. \<exists>e\<in>set (all_entries entries). collect_info e (filename (entry_path e)) = Inr r"
    by blast
  let ?whole = "iterate max_depth include_hidden depth (Node e opn entries # rest) s"
  show ?case
  proof (cases ?inner)
    case (Inl x)
    then have "final_state ?whole = final_state ?inner" using vis by simp
    then have "results (final_state ?whole) = results s @ (rs1 @ rs2)"
      and "errors (final_state ?whole) = errors s @ (es1 @ es2)"
      using r1 r2 e1 e2 by simp_all
    moreover have "\<forall>r\<in>set (rs1 @ rs2). \<exists>e'\<in>set (all_entries (Node e opn entries # rest)).
        collect_info e' (filename (entry_path e')) = Inr r"
      using o1 o2 by auto
    ultimately show ?thesis by blast
  next
    case (Inr s2)
    then have w: "?whole = iterate max_depth include_hidden depth rest s2" using vis by simp
    from Inr have s2: "final_state ?inner = s2" by (simp add: final_state_def)
    from "2.IH"(2) [OF vis [symmetric] Inr] obtain rs3 es3 where
      r3: "results (final_state (iterate max_depth include_hidden depth rest s2)) = results s2 @ rs3"
      and e3: "errors (final_state (iterate max_depth include_hidden depth rest s2)) = errors s2 @ es3"
      and o3: "\<forall>r\<in>set rs3. \<exists>e\<in>set (all_entries rest). collect_info e (filename (entry_path e)) = Inr r"
      by blast
    have "results (final_state ?whole) = results s @ (rs1 @ rs2 @ rs3)"
      and "errors (final_state ?whole) = errors s @ (es1 @ es2 @ es3)"
      using w r1 r2 r3 e1 e2 e3 s2 by simp_all
    moreover have "\<forall>r\<in>set (rs1 @ rs2 @ rs3). \<exists>e'\<in>set (all_entries (Node e opn entries # rest)).
        collect_info e' (filename (entry_path e')) = Inr r"
      using o1 o2 o3 by auto
    ultimately show ?thesis by blast
  qed
qed

lemma hidden_directory_not_pending:
  assumes "hidden_name (filename (entry_path e))"
    and "visit_entry max_depth False depth e s = (s1, pending)"
  shows "results s1 = results s \<and> \<not> (pending \<and> own_type (object e) = Directory)"
  using assms
  by (auto simp: visit_entry_def Let_def entry_is_directory_def entry_status_def
      split: if_splits sum.splits)

lemma visit_entry_visible:
  assumes "\<not> hidden_name (filename (entry_path e))" and "results s = results s'"
    and "visit_entry max_depth False depth e s = (s1, pending)"
    and "visit_entry max_depth True depth e s' = (s1', pending')"
  shows "results s1 = results s1' \<and> pending = pending'"
  using assms
  by (auto simp: visit_entry_def Let_def split: if_splits sum.splits)

lemma agree_refl_results: "results s = results s' \<Longrightarrow> agree (Inr s) (Inr s')"
  by (simp add: agree_def thrown_def final_state_def)

lemma iterate_strip_hidden:
  "results s = results s' \<Longrightarrow>
   agree (iterate max_depth include_hidden depth ts s)
         (iterate max_depth True depth (if include_hidden then ts else strip_hidden ts) s')"
proof (induction max_depth include_hidden depth ts s arbitrary: s' rule: iterate.induct)
  case (1 max_depth include_hidden depth s)
  then show ?case by (simp add: agree_refl_results)
next
  case (2 max_depth include_hidden depth e opn entries rest s)
  obtain s1 pending where vis: "visit_entry max_depth include_hidden depth e s = (s1, pending)"
    by (cases "visit_entry max_depth include_hidden depth e s")
  let ?inner = "(if pending \<and> own_type (object e) = Directory then
                   (case opn of
                      Opens \<Rightarrow> iterate max_depth include_hidden (Suc depth) entries s1
                    | PermissionDenied \<Rightarrow> Inr s1
                    | OpenFails m \<Rightarrow> Inl (m, s1))
                 else Inr s1)"
  let ?whole = "iterate max_depth include_hidden depth (Node e opn entries # rest) s"
  let ?S = "\<lambda>ts. if include_hidden then ts else strip_hidden ts"
  show ?case
  proof (cases "\<not> include_hidden \<and> hidden_name (filename (entry_path e))")
    case True
    then have ih: "include_hidden = False" by simp
    from hidden_directory_not_pending [OF _ vis [unfolded ih]] True
    have r1: "results s1 = results s" and np: "\<not> (pending \<and> own_type (object e) = Directory)"
      by simp_all
    from np have inner: "?inner = Inr s1" by auto
    then have w: "?whole = iterate max_depth include_hidden depth rest s1" using vis by simp
    have "agree (iterate max_depth include_hidden depth rest s1)
            (iterate max_depth True depth (?S rest) s')"
      by (rule "2.IH"(2) [OF vis [symmetric] inner]) (use r1 "2.prems" in simp)
    then show ?thesis using w True by simp
  next
    case False
    obtain s1' pending' where vis': "visit_entry max_depth True depth e s' = (s1', pending')"
      by (cases "visit_entry max_depth True depth e s'")
    have r1: "results s1 = results s1' \<and> pending = pending'"
    proof (cases include_hidden)
      case True
      with vis vis' "2.prems" show ?thesis
        by (auto simp: visit_entry_def Let_def split: if_splits sum.splits)
    next
      case False
      with \<open>\<not> (\<not> include_hidden \<and> hidden_name (filename (entry_path e)))\<close>
      have nh: "\<not> hidden_name (filename (entry_path e))" by simp
      from False have ihF: "include_hidden = False" by simp
      from visit_entry_visible [OF nh "2.prems" vis [unfolded ihF] vis'] show ?thesis .
    qed
    let ?inner' = "(if pending' \<and> own_type (object e) = Directory then
                   (case opn of
                      Opens \<Rightarrow> iterate max_depth True (Suc depth) (?S entries) s1'
                    | PermissionDenied \<Rightarrow> Inr s1'
                    | OpenFails m \<Rightarrow> Inl (m, s1'))
                 else Inr s1')"
    have S: "?S (Node e opn entries # rest) = Node e opn (?S entries) # ?S rest"
      using False by auto
    have inner: "agree ?inner ?inner'"
    proof (cases "pending \<and> own_type (object e) = Directory \<and> opn = Opens")
      case True
      have "agree (iterate max_depth include_hidden (Suc depth) entries s1)
              (iterate max_depth True (Suc depth) (?S entries) s1')"
        by (rule "2.IH"(1) [OF vis [symmetric]]) (use True r1 in simp_all)
      then show ?thesis using True r1 by simp
    next
      case False
      then show ?thesis using r1
        by (cases opn) (auto simp: agree_def thrown_def final_state_def)
    qed
    have whole': "iterate max_depth True depth (?S (Node e opn entries # rest)) s' =
        (case ?inner' of Inl x \<Rightarrow> Inl x | Inr s2 \<Rightarrow> iterate max_depth True depth (?S rest) s2)"
      unfolding S using vis' by simp
    show ?thesis
    proof (cases ?inner)
      case (Inl x)
      with inner obtain x' where x': "?inner' = Inl x'"
        by (cases ?inner') (auto simp: agree_def thrown_def split: prod.splits)
      have "?whole = Inl x" using vis Inl by simp
      moreover have "iterate max_depth True depth (?S (Node e opn entries # rest)) s' = Inl x'"
        using whole' x' by simp
      ultimately show ?thesis using inner Inl x' by simp
    next
      case (Inr s2)
      with inner obtain s2' where s2': "?inner' = Inr s2'" and rr: "results s2 = results s2'"
        by (cases ?inner') (auto simp: agree_def thrown_def final_state_def split: prod.splits)
      have "?whole = iterate max_depth include_hidden depth rest s2" using vis Inr by simp
      moreover have "iterate max_depth True depth (?S (Node e opn entries # rest)) s' =
          iterate max_depth True depth (?S rest) s2'"
        using whole' s2' by simp
      moreover have "agree (iterate max_depth include_hidden depth rest s2)
            (iterate max_depth True depth (?S rest) s2')"
        by (rule "2.IH"(2) [OF vis [symmetric] Inr rr])
      ultimately show ?thesis by simp
    qed
  qed
qed

lemma traverse_prune:
  assumes "0 < d"
  shows "traverse root_open ts d include_hidden = traverse root_open (prune (nat d) ts) 0 include_hidden"
  unfolding traverse_def iterate_prune [OF assms, of include_hidden 0 ts, simplified] by (rule refl)

lemma traverse_records:
  "\<forall>r\<in>set (results (traverse root_open ts max_depth include_hidden)).
     \<exists>e\<in>set (all_entries ts). collect_info e (filename (entry_path e)) = Inr r"
proof (cases root_open)
  case Opens
  let ?it = "iterate max_depth include_hidden 0 ts \<lparr>results = [], errors = []\<rparr>"
  from iterate_extends [of max_depth include_hidden 0 ts "\<lparr>results = [], errors = []\<rparr>"]
  obtain rs where "results (final_state ?it) = rs"
    and o: "\<forall>r\<in>set rs. \<exists>e\<in>set (all_entries ts). collect_info e (filename (entry_path e)) = Inr r"
    by auto
  moreover have "results (traverse root_open ts max_depth include_hidden) = results (final_state ?it)"
    using Opens by (cases ?it) (auto simp: traverse_def final_state_def Let_def)
  ultimately show ?thesis by simp
next
  case PermissionDenied
  then show ?thesis by (simp add: traverse_def)
next
  case (OpenFails m)
  then show ?thesis by (simp add: traverse_def)
qed

lemma scandir_returns:
  assumes "scandir_recursive fs root_open ts root_path max_depth include_hidden = Inr recs"
  shows "recs = results (traverse root_open ts max_depth include_hidden)"
  using assms
  by (auto simp: scandir_recursive_def Let_def split: sum.splits if_splits option.splits)

lemma scandir_prune:
  assumes "0 < d"
  shows "scandir_recursive fs root_open ts root_path d include_hidden =
         scandir_recursive fs root_open (prune (nat d) ts) root_path 0 include_hidden"
  unfolding scandir_recursive_def traverse_prune [OF assms] by (rule refl)

lemma visit_entry_excluded:
  assumes "\<not> 0 < max_depth" and "hidden_name (filename (entry_path e))"
  shows "\<exists>pending. visit_entry max_depth False depth e s =
           (s\<lparr>errors := errors s @ (case entry_is_directory e of Inl m \<Rightarrow> [m] | Inr dir \<Rightarrow> [])\<rparr>,
            pending) \<and>
           \<not> (pending \<and> own_type (object e) = Directory)"
  using assms
  by (auto simp: visit_entry_def Let_def entry_is_directory_def entry_status_def split: sum.splits)

lemma visit_entry_shown:
  assumes "\<not> 0 < max_depth" and "\<not> (\<not> include_hidden \<and> hidden_name (filename (entry_path e)))"
  shows "visit_entry max_depth include_hidden depth e s =
           (s\<lparr>results := results s @
                 (case collect_info e (filename (entry_path e)) of Inl m \<Rightarrow> [] | Inr info \<Rightarrow> [info]),
               errors := errors s @
                 (case collect_info e (filename (entry_path e)) of Inl m \<Rightarrow> [m] | Inr info \<Rightarrow> [])\<rparr>,
            True)"
  using assms by (auto simp: visit_entry_def Let_def split: sum.splits)

lemma iterate_structural:
  assumes "\<not> 0 < max_depth"
  shows "no_open_failure include_hidden ts \<Longrightarrow>
   iterate max_depth include_hidden depth ts s =
     Inr (s\<lparr>results := results s @ all_records include_hidden ts,
            errors := errors s @ all_diagnostics include_hidden ts\<rparr>)"
proof (induction include_hidden ts arbitrary: depth s rule: all_records.induct)
  case (1 include_hidden)
  show ?case by simp
next
  case (2 include_hidden e opn entries rest)
  show ?case
  proof (cases "\<not> include_hidden \<and> hidden_name (filename (entry_path e))")
    case True
    then have ih: "include_hidden = False" and hid: "hidden_name (filename (entry_path e))"
      by simp_all
    let ?s1 = "s\<lparr>errors := errors s @ (case entry_is_directory e of Inl m \<Rightarrow> [m] | Inr dir \<Rightarrow> [])\<rparr>"
    from visit_entry_excluded [OF assms hid, of depth s]
    obtain pending where vis: "visit_entry max_depth False depth e s = (?s1, pending)"
      and np: "\<not> (pending \<and> own_type (object e) = Directory)" by blast
    have nf: "no_open_failure include_hidden rest" using "2.prems" True by simp
    have "iterate max_depth include_hidden depth (Node e opn entries # rest) s =
          iterate max_depth include_hidden depth rest ?s1"
      using vis np ih by auto
    also have "\<dots> = Inr (?s1\<lparr>results := results ?s1 @ all_records include_hidden rest,
            errors := errors ?s1 @ all_diagnostics include_hidden rest\<rparr>)"
      by (rule "2.IH"(1) [OF True nf])
    finally show ?thesis using True by simp
  next
    case False
    let ?c = "collect_info e (filename (entry_path e))"
    let ?s1 = "s\<lparr>results := results s @ (case ?c of Inl m \<Rightarrow> [] | Inr info \<Rightarrow> [info]),
               errors := errors s @ (case ?c of Inl m \<Rightarrow> [m] | Inr info \<Rightarrow> [])\<rparr>"
    have vis: "visit_entry max_depth include_hidden depth e s = (?s1, True)"
      by (rule visit_entry_shown [OF assms False])
    have nf: "no_open_failure include_hidden rest" using "2.prems" False by simp
    let ?into = "own_type (object e) = Directory \<and> opn = Opens"
    let ?s2 = "?s1\<lparr>results := results ?s1 @ (if ?into then all_records include_hidden entries else []),
               errors := errors ?s1 @ (if ?into then all_diagnostics include_hidden entries else [])\<rparr>"
    have inner: "(if True \<and> own_type (object e) = Directory then
                   (case opn of
                      Opens \<Rightarrow> iterate max_depth include_hidden (Suc depth) entries ?s1
                    | PermissionDenied \<Rightarrow> Inr ?s1
                    | OpenFails m \<Rightarrow> Inl (m, ?s1))
                 else Inr ?s1) = Inr ?s2"
    proof (cases ?into)
      case True
      then have "no_open_failure include_hidden entries" using "2.prems" False by simp
      from "2.IH"(2) [OF False True this, of "Suc depth" ?s1] True show ?thesis by simp
    next
      case no: False
      show ?thesis
      proof (cases "own_type (object e) = Directory")
        case True
        with no "2.prems" False have "opn = PermissionDenied" by (cases opn) auto
        with True show ?thesis by simp
      next
        case False
        then show ?thesis by simp
      qed
    qed
    have "iterate max_depth include_hidden depth (Node e opn entries # rest) s =
          iterate max_depth include_hidden depth rest ?s2"
      unfolding iterate.simps vis prod.case inner by simp
    also have "\<dots> = Inr (?s2\<lparr>results := results ?s2 @ all_records include_hidden rest,
            errors := errors ?s2 @ all_diagnostics include_hidden rest\<rparr>)"
      by (rule "2.IH"(3) [OF False nf])
    finally have whole: "iterate max_depth include_hidden depth (Node e opn entries # rest) s =
        Inr (?s2\<lparr>results := results ?s2 @ all_records include_hidden rest,
            errors := errors ?s2 @ all_diagnostics include_hidden rest\<rparr>)" .
    show ?thesis
      unfolding whole all_records.simps all_diagnostics.simps if_not_P [OF False] by simp
  qed
qed

lemma limit_0: "\<not> 0 < max_depth \<Longrightarrow> limit max_depth ts = ts"
  by (simp add: limit_def)

lemma traverse_limit:
  "traverse root_open ts max_depth include_hidden =
   traverse root_open (limit max_depth ts) 0 include_hidden"
proof (cases "0 < max_depth")
  case True
  then show ?thesis by (simp add: limit_def traverse_prune)
next
  case False
  have "iterate max_depth include_hidden depth us s = iterate 0 include_hidden depth us s"
    for depth us s
  proof (induction "0::int" include_hidden depth us s rule: iterate.induct)
    case (1 include_hidden depth s)
    show ?case by simp
  next
    case (2 include_hidden depth e opn entries rest s)
    have v: "visit_entry max_depth include_hidden depth e s = visit_entry 0 include_hidden depth e s"
      by (rule visit_entry_within) (use False in simp)
    show ?case
      unfolding iterate.simps v
      by (auto split: prod.splits sum.splits open_result.splits simp: "2.hyps")
  qed
  then have eq: "iterate max_depth include_hidden 0 ts \<lparr>results = [], errors = []\<rparr> =
      iterate 0 include_hidden 0 ts \<lparr>results = [], errors = []\<rparr>" .
  show ?thesis unfolding traverse_def Let_def limit_0 [OF False] eq by (rule refl)
qed

lemma traverse_structural:
  assumes "no_open_failure include_hidden (limit max_depth ts)"
  shows "traverse Opens ts max_depth include_hidden =
           \<lparr>results = all_records include_hidden (limit max_depth ts),
            errors = all_diagnostics include_hidden (limit max_depth ts)\<rparr>"
  unfolding traverse_limit [of Opens ts max_depth]
  by (simp add: traverse_def iterate_structural [OF _ assms])

lemma scandir_valid_root:
  assumes "status (fs root_path) = Inr Directory"
  shows "scandir_recursive fs root_open root_entries root_path max_depth include_hidden =
           (case find is_fatal (errors (traverse root_open root_entries max_depth include_hidden)) of
              Some err \<Rightarrow> Inl (RuntimeError err)
            | None \<Rightarrow> Inr (results (traverse root_open root_entries max_depth include_hidden)))"
  using assms by (simp add: scandir_recursive_def fs_exists_def fs_is_directory_def Let_def)

lemma scandir_structural:
  assumes "status (fs root_path) = Inr Directory"
    and "no_open_failure include_hidden (limit max_depth ts)"
    and "find is_fatal (all_diagnostics include_hidden (limit max_depth ts)) = None"
  shows "scandir_recursive fs Opens ts root_path max_depth include_hidden =
           Inr (all_records include_hidden (limit max_depth ts))"
  unfolding scandir_valid_root [where fs = fs and root_path = root_path, OF assms(1)]
    traverse_structural [OF assms(2)]
  using assms(3) by simp

lemma iterate_open_failure:
  assumes "\<not> 0 < max_depth"
  shows "\<not> no_open_failure include_hidden ts \<Longrightarrow>
   \<exists>m s'. iterate max_depth include_hidden depth ts s = Inl (m, s')"
proof (induction include_hidden ts arbitrary: depth s rule: all_records.induct)
  case (1 include_hidden)
  then show ?case by simp
next
  case (2 include_hidden e opn entries rest)
  show ?case
  proof (cases "\<not> include_hidden \<and> hidden_name (filename (entry_path e))")
    case True
    then have ih: "include_hidden = False" and hid: "hidden_name (filename (entry_path e))"
      by simp_all
    let ?s1 = "s\<lparr>errors := errors s @ (case entry_is_directory e of Inl m \<Rightarrow> [m] | Inr dir \<Rightarrow> [])\<rparr>"
    from visit_entry_excluded [OF assms hid, of depth s]
    obtain pending where vis: "visit_entry max_depth False depth e s = (?s1, pending)"
      and np: "\<not> (pending \<and> own_type (object e) = Directory)" by blast
    have nf: "\<not> no_open_failure include_hidden rest" using "2.prems" True by simp
    have "iterate max_depth include_hidden depth (Node e opn entries # rest) s =
          iterate max_depth include_hidden depth rest ?s1"
      using vis np ih by auto
    with "2.IH"(1) [OF True nf, of depth ?s1] show ?thesis by simp
  next
    case False
    let ?c = "collect_info e (filename (entry_path e))"
    let ?s1 = "s\<lparr>results := results s @ (case ?c of Inl m \<Rightarrow> [] | Inr info \<Rightarrow> [info]),
               errors := errors s @ (case ?c of Inl m \<Rightarrow> [m] | Inr info \<Rightarrow> [])\<rparr>"
    have vis: "visit_entry max_depth include_hidden depth e s = (?s1, True)"
      by (rule visit_entry_shown [OF assms False])
    let ?inner = "(if True \<and> own_type (object e) = Directory then
                   (case opn of
                      Opens \<Rightarrow> iterate max_depth include_hidden (Suc depth) entries ?s1
                    | PermissionDenied \<Rightarrow> Inr ?s1
                    | OpenFails m \<Rightarrow> Inl (m, ?s1))
                 else Inr ?s1)"
    have whole: "iterate max_depth include_hidden depth (Node e opn entries # rest) s =
        (case ?inner of Inl x \<Rightarrow> Inl x
         | Inr s2 \<Rightarrow> iterate max_depth include_hidden depth rest s2)"
      unfolding iterate.simps vis prod.case by (rule refl)
    show ?thesis
    proof (cases ?inner)
      case (Inl x)
      then show ?thesis unfolding whole by (cases x) simp
    next
      case (Inr s2)
      have "\<not> no_open_failure include_hidden rest"
      proof
        assume rest: "no_open_failure include_hidden rest"
        with "2.prems" False have dir: "own_type (object e) = Directory"
          and bad: "\<not> (case opn of Opens \<Rightarrow> no_open_failure include_hidden entries
                       | PermissionDenied \<Rightarrow> True | OpenFails m \<Rightarrow> False)"
          by (auto split: if_splits)
        show False
        proof (cases opn)
          case Opens
          with bad have "\<not> no_open_failure include_hidden entries" by simp
          from "2.IH"(2) [OF False conjI [OF dir Opens] this, of "Suc depth" ?s1]
          show False using Inr dir Opens by simp
        next
          case PermissionDenied
          with bad show False by simp
        next
          case (OpenFails m)
          with Inr dir show False by simp
        qed
      qed
      from "2.IH"(3) [OF False this, of depth s2] show ?thesis unfolding whole Inr by simp
    qed
  qed
qed

lemma scandir_open_failure:
  assumes "status (fs root_path) = Inr Directory"
    and "\<not> no_open_failure include_hidden (limit max_depth ts)"
  shows "\<exists>err. scandir_recursive fs Opens ts root_path max_depth include_hidden =
           Inl (RuntimeError err)"
proof -
  from iterate_open_failure [OF _ assms(2), of 0 0 "\<lparr>results = [], errors = []\<rparr>"]
  obtain m s' where "iterate 0 include_hidden 0 (limit max_depth ts) \<lparr>results = [], errors = []\<rparr> =
      Inl (m, s')" by auto
  then have tr: "traverse Opens (limit max_depth ts) 0 include_hidden =
      s'\<lparr>errors := errors s' @ [''Fatal error: '' @ m]\<rparr>"
    by (simp add: traverse_def)
  have "is_fatal (''Fatal error: '' @ m)" by (simp add: is_fatal_def)
  then have "find is_fatal (errors (traverse Opens ts max_depth include_hidden)) \<noteq> None"
    unfolding traverse_limit [of Opens ts max_depth] tr by (auto simp: find_None_iff)
  then show ?thesis
    unfolding scandir_valid_root [where fs = fs and root_path = root_path, OF assms(1)]
    by (auto split: option.splits)
qed

lemma all_records_strip_hidden:
  "all_records False ts = all_records True (strip_hidden ts)"
proof (induction ts rule: strip_hidden.induct)
  case 1
  show ?case by simp
next
  case (2 e opn entries rest)
  show ?case
  proof (cases "hidden_name (filename (entry_path e))")
    case True
    with "2.IH"(1) show ?thesis by simp
  next
    case False
    with "2.IH"(2,3) show ?thesis by simp
  qed
qed

lemma traverse_strip_hidden:
  "results (traverse root_open ts max_depth False) =
   results (traverse root_open (strip_hidden ts) max_depth True)"
proof (cases root_open)
  case Opens
  let ?s0 = "\<lparr>results = [], errors = []\<rparr>"
  let ?a = "iterate max_depth False 0 ts ?s0"
  let ?b = "iterate max_depth True 0 (strip_hidden ts) ?s0"
  from iterate_strip_hidden [of ?s0 ?s0 max_depth False 0 ts]
  have ag: "agree ?a ?b" by simp
  have "results (traverse root_open ts max_depth False) = results (final_state ?a)"
    using Opens by (cases ?a) (auto simp: traverse_def final_state_def Let_def)
  moreover have "results (traverse root_open (strip_hidden ts) max_depth True) = results (final_state ?b)"
    using Opens by (cases ?b) (auto simp: traverse_def final_state_def Let_def)
  ultimately show ?thesis using ag by (simp add: agree_def)
next
  case PermissionDenied
  then show ?thesis by (simp add: traverse_def)
next
  case (OpenFails m)
  then show ?thesis by (simp add: traverse_def)
qed

lemma strip_hidden_visible:
  "\<forall>e\<in>set (all_entries (strip_hidden ts)). \<not> hidden_name (filename (entry_path e))"
proof (induction ts rule: strip_hidden.induct)
  case 1
  show ?case by simp
next
  case (2 e opn entries rest)
  show ?case
  proof (cases "hidden_name (filename (entry_path e))")
    case True
    with "2.IH"(1) show ?thesis by simp
  next
    case False
    with "2.IH"(2,3) show ?thesis by (simp add: ball_Un)
  qed
qed

lemma collect_info_name: "collect_info e fname = Inr r \<Longrightarrow> name r = fname"
  unfolding collect_info_def Let_def
  by (cases "last_write_time (object e)") (auto split: sum.splits prod.splits)

lemma iterate_prefix:
  "prefix (results s) (results (final_state (iterate max_depth include_hidden depth ts s))) \<and>
   prefix (errors s) (errors (final_state (iterate max_depth include_hidden depth ts s)))"
proof -
  from iterate_extends [of max_depth include_hidden depth ts s]
  obtain rs es where
    "results (final_state (iterate max_depth include_hidden depth ts s)) = results s @ rs"
    "errors (final_state (iterate max_depth include_hidden depth ts s)) = errors s @ es"
    by blast
  then show ?thesis by simp
qed

lemmas sample_objects =
  entry_at_def regular_file_def directory_object_def link_to_directory_def fifo_object_def
  looping_link_def directory_without_time_def sample_clock_def

lemmas entry_queries =
  collect_info_def entry_is_symlink_def entry_is_directory_def entry_status_def
  symlink_status_def filename_def hidden_name_def time_point_cast_seconds_def
  ticks_per_second_def file_record_def directory_record_def Let_def

lemma scan_fs_root: "status (scan_fs ''root'') = Inr Directory"
  by (simp add: scan_fs_def directory_object_def status_def)

lemma sample_limit_2:
  "limit 2 sample_entries =
     [Node (entry_at ''root/a.txt'' (regular_file [104, 101, 108, 108, 111])) Opens [],
      Node (entry_at ''root/.hidden'' directory_object) Opens
        [Node (entry_at ''root/.hidden/b.txt'' (regular_file [98])) Opens []],
      Node (entry_at ''root/sub'' directory_object) Opens
        [Node (entry_at ''root/sub/c.txt'' (regular_file [99, 99])) Opens [],
         Node (entry_at ''root/sub/deep'' directory_object) Opens []],
      Node (entry_at ''root/pipe'' fifo_object) Opens [],
      Node (entry_at ''root/lnk'' link_to_directory) Opens []]"
  by (simp add: limit_def sample_entries_def numeral_2_eq_2)

lemma sample_depth_2:
  "no_open_failure False (limit 2 sample_entries)"
  "all_records False (limit 2 sample_entries) =
     [file_record ''root/a.txt'' ''a.txt'' 5,
      directory_record ''root/sub'' ''sub'' False,
      file_record ''root/sub/c.txt'' ''c.txt'' 2,
      directory_record ''root/sub/deep'' ''deep'' False,
      directory_record ''root/lnk'' ''lnk'' True]"
  "all_diagnostics False (limit 2 sample_entries) =
     [''filesystem error: cannot get file size: Operation not supported [root/pipe]'']"
  unfolding sample_limit_2 by (simp_all add: sample_objects entry_queries)

lemma limit_zero: "limit 0 ts = ts"
  by (simp add: limit_def)

lemma sample_visible:
  "no_open_failure False sample_entries"
  "all_records False sample_entries =
     [file_record ''root/a.txt'' ''a.txt'' 5,
      directory_record ''root/sub'' ''sub'' False,
      file_record ''root/sub/c.txt'' ''c.txt'' 2,
      directory_record ''root/sub/deep'' ''deep'' False,
      file_record ''root/sub/deep/d.txt'' ''d.txt'' 1,
      directory_record ''root/lnk'' ''lnk'' True]"
  "all_diagnostics False sample_entries =
     [''filesystem error: cannot get file size: Operation not supported [root/pipe]'']"
  by (simp_all add: sample_entries_def sample_objects entry_queries)

lemma sample_all:
  "no_open_failure True sample_entries"
  "all_records True sample_entries =
     [file_record ''root/a.txt'' ''a.txt'' 5,
      directory_record ''root/.hidden'' ''.hidden'' False,
      file_record ''root/.hidden/b.txt'' ''b.txt'' 1,
      directory_record ''root/sub'' ''sub'' False,
      file_record ''root/sub/c.txt'' ''c.txt'' 2,
      directory_record ''root/sub/deep'' ''deep'' False,
      file_record ''root/sub/deep/d.txt'' ''d.txt'' 1,
      directory_record ''root/lnk'' ''lnk'' True]"
  "all_diagnostics True sample_entries =
     [''filesystem error: cannot get file size: Operation not supported [root/pipe]'']"
  by (simp_all add: sample_entries_def sample_objects entry_queries)

lemma sample_without_pipe:
  "no_open_failure False sample_entries_without_pipe"
  "all_records False sample_entries_without_pipe =
     [file_record ''root/a.txt'' ''a.txt'' 5,
      directory_record ''root/sub'' ''sub'' False,
      file_record ''root/sub/c.txt'' ''c.txt'' 2,
      directory_record ''root/sub/deep'' ''deep'' False,
      file_record ''root/sub/deep/d.txt'' ''d.txt'' 1,
      directory_record ''root/lnk'' ''lnk'' True]"
  "all_diagnostics False sample_entries_without_pipe = []"
  by (simp_all add: sample_entries_without_pipe_def sample_objects entry_queries)

lemma sample_failing:
  "no_open_failure False failing_entries"
  "all_records False failing_entries =
     [file_record ''root/old/e.txt'' ''e.txt'' 1,
      directory_record ''root/lnk'' ''lnk'' True]"
  "all_diagnostics False failing_entries =
     [''filesystem error: status: Too many levels of symbolic links [root/.loop]'',
      ''filesystem error: cannot get file time: Input/output error [root/old]'',
      ''filesystem error: cannot get file size: Operation not supported [root/pipe]'']"
  by (simp_all add: failing_entries_def sample_objects entry_queries)

lemma sample_broken: "\<not> no_open_failure False (limit 0 broken_entries)"
  by (simp add: limit_def broken_entries_def sample_objects entry_queries)

lemma not_fatal:
  "find is_fatal [''filesystem error: cannot get file size: Operation not supported [root/pipe]''] = None"
  "find is_fatal
     [''filesystem error: status: Too many levels of symbolic links [root/.loop]'',
      ''filesystem error: cannot get file time: Input/output error [root/old]'',
      ''filesystem error: cannot get file size: Operation not supported [root/pipe]''] = None"
  "find is_fatal [] = None"
  by (simp_all add: is_fatal_def)

lemma sample_scan_visible:
  "scandir_recursive scan_fs Opens sample_entries ''root'' 0 False =
     Inr [file_record ''root/a.txt'' ''a.txt'' 5,
          directory_record ''root/sub'' ''sub'' False,
          file_record ''root/sub/c.txt'' ''c.txt'' 2,
          directory_record ''root/sub/deep'' ''deep'' False,
          file_record ''root/sub/deep/d.txt'' ''d.txt'' 1,
          directory_record ''root/lnk'' ''lnk'' True]"
  using scandir_structural [where fs = scan_fs and root_path = "''root''" and max_depth = 0
      and ts = sample_entries and include_hidden = False, OF scan_fs_root]
  by (simp add: limit_zero sample_visible is_fatal_def)

lemma sample_scan_without_pipe:
  "scandir_recursive scan_fs Opens sample_entries_without_pipe ''root'' 0 False =
     Inr [file_record ''root/a.txt'' ''a.txt'' 5,
          directory_record ''root/sub'' ''sub'' False,
          file_record ''root/sub/c.txt'' ''c.txt'' 2,
          directory_record ''root/sub/deep'' ''deep'' False,
          file_record ''root/sub/deep/d.txt'' ''d.txt'' 1,
          directory_record ''root/lnk'' ''lnk'' True]"
  using scandir_structural [where fs = scan_fs and root_path = "''root''" and max_depth = 0
      and ts = sample_entries_without_pipe and include_hidden = False, OF scan_fs_root]
  by (simp add: limit_zero sample_without_pipe is_fatal_def)

lemma sample_scan_diagnostics:
  "errors (traverse Opens sample_entries 0 False) =
     [''filesystem error: cannot get file size: Operation not supported [root/pipe]'']"
  using traverse_structural [where max_depth = 0 and ts = sample_entries and include_hidden = False]
  by (simp add: limit_zero sample_visible)

text \<open>
  C4. The entries of the root are at nesting level 1 (iterator depth 0). With a limit
  \<open>d > 0\<close> the whole scan is the unlimited scan of the tree cut below level \<open>d\<close>, whose
  deepest entry is at level at most \<open>d\<close>. When no directory of the cut tree fails to open
  with an error, the traversal collects exactly the records and diagnostics read off the
  cut tree: the record of every entry at level at most \<open>d\<close> that is reached, visible and
  whose queries succeed, and nothing from a deeper level; and when none of these
  diagnostics is fatal the call on a valid root returns these records. What lies below
  level \<open>d\<close> raises nothing. (A directory at level \<open>d\<close> is still opened by the iterator; its
  entries are then skipped one by one.)
\<close>

theorem depth_limit:
  assumes "0 < d"
  shows "scandir_recursive fs root_open root_entries root_path d include_hidden =
           scandir_recursive fs root_open (prune (nat d) root_entries) root_path 0 include_hidden \<and>
         height (prune (nat d) root_entries) \<le> nat d \<and>
         (\<forall>recs. scandir_recursive fs root_open root_entries root_path d include_hidden = Inr recs \<longrightarrow>
            (\<forall>r\<in>set recs. \<exists>e\<in>set (all_entries (prune (nat d) root_entries)).
               collect_info e (filename (entry_path e)) = Inr r)) \<and>
         (no_open_failure include_hidden (prune (nat d) root_entries) \<longrightarrow>
            traverse Opens root_entries d include_hidden =
              \<lparr>results = all_records include_hidden (prune (nat d) root_entries),
               errors = all_diagnostics include_hidden (prune (nat d) root_entries)\<rparr>) \<and>
         (status (fs root_path) = Inr Directory \<and>
          no_open_failure include_hidden (prune (nat d) root_entries) \<and>
          find is_fatal (all_diagnostics include_hidden (prune (nat d) root_entries)) = None \<longrightarrow>
            scandir_recursive fs Opens root_entries root_path d include_hidden =
              Inr (all_records include_hidden (prune (nat d) root_entries)))"
proof (intro conjI allI impI)
  show "scandir_recursive fs root_open root_entries root_path d include_hidden =
           scandir_recursive fs root_open (prune (nat d) root_entries) root_path 0 include_hidden"
    by (rule scandir_prune [OF assms])
  show "height (prune (nat d) root_entries) \<le> nat d" by (rule height_prune)
next
  fix recs
  assume "scandir_recursive fs root_open root_entries root_path d include_hidden = Inr recs"
  then have "recs = results (traverse root_open root_entries d include_hidden)"
    by (rule scandir_returns)
  then have "recs = results (traverse root_open (prune (nat d) root_entries) 0 include_hidden)"
    by (simp add: traverse_prune [OF assms])
  then show "\<forall>r\<in>set recs. \<exists>e\<in>set (all_entries (prune (nat d) root_entries)).
               collect_info e (filename (entry_path e)) = Inr r"
    using traverse_records [of root_open "prune (nat d) root_entries" 0 include_hidden] by simp
next
  have l: "limit d root_entries = prune (nat d) root_entries" using assms by (simp add: limit_def)
  {
    assume "no_open_failure include_hidden (prune (nat d) root_entries)"
    then have "no_open_failure include_hidden (limit d root_entries)" by (simp only: l)
    from traverse_structural [OF this]
    show "traverse Opens root_entries d include_hidden =
              \<lparr>results = all_records include_hidden (prune (nat d) root_entries),
               errors = all_diagnostics include_hidden (prune (nat d) root_entries)\<rparr>"
      by (simp only: l)
  }
  {
    assume a: "status (fs root_path) = Inr Directory \<and>
          no_open_failure include_hidden (prune (nat d) root_entries) \<and>
          find is_fatal (all_diagnostics include_hidden (prune (nat d) root_entries)) = None"
    then have "no_open_failure include_hidden (limit d root_entries)"
      and "find is_fatal (all_diagnostics include_hidden (limit d root_entries)) = None"
      by (simp_all only: l)
    from scandir_structural [where fs = fs and root_path = root_path, OF a [THEN conjunct1] this]
    show "scandir_recursive fs Opens root_entries root_path d include_hidden =
              Inr (all_records include_hidden (prune (nat d) root_entries))"
      by (simp only: l)
  }
qed

theorem depth_limit_witness:
  "(0::int) < 2 \<and>
   status (scan_fs ''root'') = Inr Directory \<and>
   no_open_failure False (prune (nat 2) sample_entries) \<and>
   find is_fatal (all_diagnostics False (prune (nat 2) sample_entries)) = None \<and>
   traverse Opens sample_entries 2 False =
     \<lparr>results =
        [file_record ''root/a.txt'' ''a.txt'' 5,
         directory_record ''root/sub'' ''sub'' False,
         file_record ''root/sub/c.txt'' ''c.txt'' 2,
         directory_record ''root/sub/deep'' ''deep'' False,
         directory_record ''root/lnk'' ''lnk'' True],
      errors = [''filesystem error: cannot get file size: Operation not supported [root/pipe]'']\<rparr> \<and>
   scandir_recursive scan_fs Opens sample_entries ''root'' 2 False =
     Inr [file_record ''root/a.txt'' ''a.txt'' 5,
          directory_record ''root/sub'' ''sub'' False,
          file_record ''root/sub/c.txt'' ''c.txt'' 2,
          directory_record ''root/sub/deep'' ''deep'' False,
          directory_record ''root/lnk'' ''lnk'' True] \<and>
   scandir_recursive scan_fs Opens (prune (nat 2) sample_entries) ''root'' 0 False =
     Inr [file_record ''root/a.txt'' ''a.txt'' 5,
          directory_record ''root/sub'' ''sub'' False,
          file_record ''root/sub/c.txt'' ''c.txt'' 2,
          directory_record ''root/sub/deep'' ''deep'' False,
          directory_record ''root/lnk'' ''lnk'' True] \<and>
   (\<exists>e\<in>set (all_entries (prune (nat 2) sample_entries)).
      collect_info e (filename (entry_path e)) =
        Inr (directory_record ''root/sub/deep'' ''deep'' False))"
proof -
  have pos: "(0::int) < 2" by simp
  have p: "prune (nat 2) sample_entries = limit 2 sample_entries" by (simp add: limit_def)
  have nf: "no_open_failure False (prune (nat 2) sample_entries)"
    unfolding p by (rule sample_depth_2(1))
  have fa: "find is_fatal (all_diagnostics False (prune (nat 2) sample_entries)) = None"
    unfolding p sample_depth_2(3) by (rule not_fatal(1))
  note T = depth_limit [OF pos, where fs = scan_fs and root_open = Opens
      and root_entries = sample_entries and root_path = "''root''" and include_hidden = False]
  note T4 = T [THEN conjunct2, THEN conjunct2, THEN conjunct2, THEN conjunct1, rule_format, OF nf]
  note T5 = T [THEN conjunct2, THEN conjunct2, THEN conjunct2, THEN conjunct2, rule_format,
      OF conjI [OF scan_fs_root conjI [OF nf fa]]]
  have tr: "traverse Opens sample_entries 2 False =
     \<lparr>results =
        [file_record ''root/a.txt'' ''a.txt'' 5,
         directory_record ''root/sub'' ''sub'' False,
         file_record ''root/sub/c.txt'' ''c.txt'' 2,
         directory_record ''root/sub/deep'' ''deep'' False,
         directory_record ''root/lnk'' ''lnk'' True],
      errors = [''filesystem error: cannot get file size: Operation not supported [root/pipe]'']\<rparr>"
    using T4 unfolding p sample_depth_2(2,3) .
  have sc: "scandir_recursive scan_fs Opens sample_entries ''root'' 2 False =
     Inr [file_record ''root/a.txt'' ''a.txt'' 5,
          directory_record ''root/sub'' ''sub'' False,
          file_record ''root/sub/c.txt'' ''c.txt'' 2,
          directory_record ''root/sub/deep'' ''deep'' False,
          directory_record ''root/lnk'' ''lnk'' True]"
    using T5 unfolding p sample_depth_2(2) .
  have sp: "scandir_recursive scan_fs Opens (prune (nat 2) sample_entries) ''root'' 0 False =
     Inr [file_record ''root/a.txt'' ''a.txt'' 5,
          directory_record ''root/sub'' ''sub'' False,
          file_record ''root/sub/c.txt'' ''c.txt'' 2,
          directory_record ''root/sub/deep'' ''deep'' False,
          directory_record ''root/lnk'' ''lnk'' True]"
    using T [THEN conjunct1] sc by simp
  note org0 = T [THEN conjunct2, THEN conjunct2, THEN conjunct1, rule_format, OF sc]
  have org: "\<exists>e\<in>set (all_entries (prune (nat 2) sample_entries)).
      collect_info e (filename (entry_path e)) =
        Inr (directory_record ''root/sub/deep'' ''deep'' False)"
    by (rule org0) simp
  show ?thesis
    by (rule conjI [OF pos conjI [OF scan_fs_root conjI [OF nf conjI [OF fa
          conjI [OF tr conjI [OF sc conjI [OF sp org]]]]]]])
qed

text \<open>
  C5. With \<^verbatim>\<open>include_hidden = false\<close> the records collected are those a scan that includes
  hidden entries collects on the tree without its hidden entries and without everything
  below them; so every record returned belongs to an entry of that tree, and none has a
  hidden name. For either value of the flag, when no directory the walk descends into
  fails to open with an error, the records collected are exactly those read off the tree
  under that flag: with \<^verbatim>\<open>include_hidden = true\<close> the name plays no part, so a hidden entry
  is recorded when its queries succeed and a hidden directory is descended into like any
  other; with \<^verbatim>\<open>include_hidden = false\<close> they are the records that reading with the flag
  set gives on the tree without its hidden entries. When no diagnostic is fatal, the call
  on a valid root returns these records.
\<close>

theorem hidden_entries_pruned:
  "results (traverse root_open root_entries max_depth False) =
     results (traverse root_open (strip_hidden root_entries) max_depth True) \<and>
   (\<forall>recs. scandir_recursive fs root_open root_entries root_path max_depth False = Inr recs \<longrightarrow>
      recs = results (traverse root_open (strip_hidden root_entries) max_depth True) \<and>
      (\<forall>r\<in>set recs. \<not> hidden_name (name r) \<and>
         (\<exists>e\<in>set (all_entries (strip_hidden root_entries)).
            collect_info e (filename (entry_path e)) = Inr r))) \<and>
   (\<forall>include_hidden. no_open_failure include_hidden (limit max_depth root_entries) \<longrightarrow>
      results (traverse Opens root_entries max_depth include_hidden) =
        all_records include_hidden (limit max_depth root_entries)) \<and>
   all_records False (limit max_depth root_entries) =
     all_records True (strip_hidden (limit max_depth root_entries)) \<and>
   (\<forall>include_hidden.
      status (fs root_path) = Inr Directory \<and>
      no_open_failure include_hidden (limit max_depth root_entries) \<and>
      find is_fatal (all_diagnostics include_hidden (limit max_depth root_entries)) = None \<longrightarrow>
        scandir_recursive fs Opens root_entries root_path max_depth include_hidden =
          Inr (all_records include_hidden (limit max_depth root_entries)))"
proof (intro conjI allI impI ballI)
  show eq: "results (traverse root_open root_entries max_depth False) =
     results (traverse root_open (strip_hidden root_entries) max_depth True)"
    by (rule traverse_strip_hidden)
  show "all_records False (limit max_depth root_entries) =
     all_records True (strip_hidden (limit max_depth root_entries))"
    by (rule all_records_strip_hidden)
  {
    fix recs
    assume "scandir_recursive fs root_open root_entries root_path max_depth False = Inr recs"
    then have "recs = results (traverse root_open root_entries max_depth False)"
      by (rule scandir_returns)
    with eq show recs: "recs = results (traverse root_open (strip_hidden root_entries) max_depth True)"
      by simp
    fix r assume "r \<in> set recs"
    with recs traverse_records [of root_open "strip_hidden root_entries" max_depth True]
    obtain e where e: "e \<in> set (all_entries (strip_hidden root_entries))"
      and c: "collect_info e (filename (entry_path e)) = Inr r" by blast
    from e c show "\<exists>e\<in>set (all_entries (strip_hidden root_entries)).
              collect_info e (filename (entry_path e)) = Inr r" by blast
    from e strip_hidden_visible have "\<not> hidden_name (filename (entry_path e))" by blast
    with collect_info_name [OF c] show "\<not> hidden_name (name r)" by simp
  }
  {
    fix include_hidden
    assume "no_open_failure include_hidden (limit max_depth root_entries)"
    from traverse_structural [OF this]
    show "results (traverse Opens root_entries max_depth include_hidden) =
        all_records include_hidden (limit max_depth root_entries)" by simp
  }
  {
    fix include_hidden
    assume a: "status (fs root_path) = Inr Directory \<and>
      no_open_failure include_hidden (limit max_depth root_entries) \<and>
      find is_fatal (all_diagnostics include_hidden (limit max_depth root_entries)) = None"
    from scandir_structural [where fs = fs and root_path = root_path, OF a [THEN conjunct1]
        a [THEN conjunct2, THEN conjunct1] a [THEN conjunct2, THEN conjunct2]]
    show "scandir_recursive fs Opens root_entries root_path max_depth include_hidden =
          Inr (all_records include_hidden (limit max_depth root_entries))" .
  }
qed

theorem hidden_entries_pruned_witness:
  "status (scan_fs ''root'') = Inr Directory \<and>
   no_open_failure True (limit 0 sample_entries) \<and>
   find is_fatal (all_diagnostics True (limit 0 sample_entries)) = None \<and>
   scandir_recursive scan_fs Opens sample_entries ''root'' 0 True =
     Inr [file_record ''root/a.txt'' ''a.txt'' 5,
          directory_record ''root/.hidden'' ''.hidden'' False,
          file_record ''root/.hidden/b.txt'' ''b.txt'' 1,
          directory_record ''root/sub'' ''sub'' False,
          file_record ''root/sub/c.txt'' ''c.txt'' 2,
          directory_record ''root/sub/deep'' ''deep'' False,
          file_record ''root/sub/deep/d.txt'' ''d.txt'' 1,
          directory_record ''root/lnk'' ''lnk'' True] \<and>
   no_open_failure False (limit 0 sample_entries) \<and>
   find is_fatal (all_diagnostics False (limit 0 sample_entries)) = None \<and>
   scandir_recursive scan_fs Opens sample_entries ''root'' 0 False =
     Inr [file_record ''root/a.txt'' ''a.txt'' 5,
          directory_record ''root/sub'' ''sub'' False,
          file_record ''root/sub/c.txt'' ''c.txt'' 2,
          directory_record ''root/sub/deep'' ''deep'' False,
          file_record ''root/sub/deep/d.txt'' ''d.txt'' 1,
          directory_record ''root/lnk'' ''lnk'' True] \<and>
   results (traverse Opens sample_entries 0 True) =
     [file_record ''root/a.txt'' ''a.txt'' 5,
      directory_record ''root/.hidden'' ''.hidden'' False,
      file_record ''root/.hidden/b.txt'' ''b.txt'' 1,
      directory_record ''root/sub'' ''sub'' False,
      file_record ''root/sub/c.txt'' ''c.txt'' 2,
      directory_record ''root/sub/deep'' ''deep'' False,
      file_record ''root/sub/deep/d.txt'' ''d.txt'' 1,
      directory_record ''root/lnk'' ''lnk'' True] \<and>
   results (traverse Opens (strip_hidden sample_entries) 0 True) =
     [file_record ''root/a.txt'' ''a.txt'' 5,
      directory_record ''root/sub'' ''sub'' False,
      file_record ''root/sub/c.txt'' ''c.txt'' 2,
      directory_record ''root/sub/deep'' ''deep'' False,
      file_record ''root/sub/deep/d.txt'' ''d.txt'' 1,
      directory_record ''root/lnk'' ''lnk'' True] \<and>
   \<not> hidden_name (name (file_record ''root/sub/c.txt'' ''c.txt'' 2))"
proof -
  note T = hidden_entries_pruned [where root_open = Opens and root_entries = sample_entries
      and max_depth = 0 and fs = scan_fs and root_path = "''root''"]
  have nt: "no_open_failure True (limit 0 sample_entries)"
    unfolding limit_zero by (rule sample_all(1))
  have ft: "find is_fatal (all_diagnostics True (limit 0 sample_entries)) = None"
    unfolding limit_zero sample_all(3) by (rule not_fatal(1))
  have nv: "no_open_failure False (limit 0 sample_entries)"
    unfolding limit_zero by (rule sample_visible(1))
  have fv: "find is_fatal (all_diagnostics False (limit 0 sample_entries)) = None"
    unfolding limit_zero sample_visible(3) by (rule not_fatal(1))
  note T5 = T [THEN conjunct2, THEN conjunct2, THEN conjunct2, THEN conjunct2, rule_format]
  have st: "scandir_recursive scan_fs Opens sample_entries ''root'' 0 True =
     Inr [file_record ''root/a.txt'' ''a.txt'' 5,
          directory_record ''root/.hidden'' ''.hidden'' False,
          file_record ''root/.hidden/b.txt'' ''b.txt'' 1,
          directory_record ''root/sub'' ''sub'' False,
          file_record ''root/sub/c.txt'' ''c.txt'' 2,
          directory_record ''root/sub/deep'' ''deep'' False,
          file_record ''root/sub/deep/d.txt'' ''d.txt'' 1,
          directory_record ''root/lnk'' ''lnk'' True]"
    using T5 [of True, OF conjI [OF scan_fs_root conjI [OF nt ft]]]
    unfolding limit_zero sample_all(2) .
  have sv: "scandir_recursive scan_fs Opens sample_entries ''root'' 0 False =
     Inr [file_record ''root/a.txt'' ''a.txt'' 5,
          directory_record ''root/sub'' ''sub'' False,
          file_record ''root/sub/c.txt'' ''c.txt'' 2,
          directory_record ''root/sub/deep'' ''deep'' False,
          file_record ''root/sub/deep/d.txt'' ''d.txt'' 1,
          directory_record ''root/lnk'' ''lnk'' True]"
    using T5 [of False, OF conjI [OF scan_fs_root conjI [OF nv fv]]]
    unfolding limit_zero sample_visible(2) .
  have rt: "results (traverse Opens sample_entries 0 True) =
     [file_record ''root/a.txt'' ''a.txt'' 5,
      directory_record ''root/.hidden'' ''.hidden'' False,
      file_record ''root/.hidden/b.txt'' ''b.txt'' 1,
      directory_record ''root/sub'' ''sub'' False,
      file_record ''root/sub/c.txt'' ''c.txt'' 2,
      directory_record ''root/sub/deep'' ''deep'' False,
      file_record ''root/sub/deep/d.txt'' ''d.txt'' 1,
      directory_record ''root/lnk'' ''lnk'' True]"
    using T [THEN conjunct2, THEN conjunct2, THEN conjunct1, rule_format, of True, OF nt]
    unfolding limit_zero sample_all(2) .
  note R = T [THEN conjunct2, THEN conjunct1, rule_format, OF sv]
  have r1: "results (traverse Opens (strip_hidden sample_entries) 0 True) =
     [file_record ''root/a.txt'' ''a.txt'' 5,
      directory_record ''root/sub'' ''sub'' False,
      file_record ''root/sub/c.txt'' ''c.txt'' 2,
      directory_record ''root/sub/deep'' ''deep'' False,
      file_record ''root/sub/deep/d.txt'' ''d.txt'' 1,
      directory_record ''root/lnk'' ''lnk'' True]"
    by (rule R [THEN conjunct1, symmetric])
  have r2: "\<not> hidden_name (name (file_record ''root/sub/c.txt'' ''c.txt'' 2))"
    by (rule R [THEN conjunct2, rule_format, THEN conjunct1]) simp
  show ?thesis
    by (rule conjI [OF scan_fs_root conjI [OF nt conjI [OF ft conjI [OF st conjI [OF nv
          conjI [OF fv conjI [OF sv conjI [OF rt conjI [OF r1 r2]]]]]]]]])
qed

text \<open>
  C1 as stated fails: the value \<^verbatim>\<open>scandir_recursive\<close> returns is the list of records and
  nothing else. On the sample directory the failed \<^verbatim>\<open>file_size\<close> of the pipe is caught and
  its text is appended to \<^verbatim>\<open>errors\<close>, the traversal goes on to the link after it, and the
  call returns the six records: the very value it returns for the same directory without
  the pipe. The diagnostic is dropped when the function returns.
\<close>

theorem scan_diagnostics_counterexample:
  "errors (traverse Opens sample_entries 0 False) =
     [''filesystem error: cannot get file size: Operation not supported [root/pipe]''] \<and>
   scandir_recursive scan_fs Opens sample_entries ''root'' 0 False =
     Inr [file_record ''root/a.txt'' ''a.txt'' 5,
          directory_record ''root/sub'' ''sub'' False,
          file_record ''root/sub/c.txt'' ''c.txt'' 2,
          directory_record ''root/sub/deep'' ''deep'' False,
          file_record ''root/sub/deep/d.txt'' ''d.txt'' 1,
          directory_record ''root/lnk'' ''lnk'' True] \<and>
   scandir_recursive scan_fs Opens sample_entries_without_pipe ''root'' 0 False =
     scandir_recursive scan_fs Opens sample_entries ''root'' 0 False"
  by (simp only: sample_scan_diagnostics sample_scan_visible sample_scan_without_pipe simp_thms)

text \<open>
  C1, amended. For a valid root directory the call returns the records the traversal
  collected, or raises when a recorded text starts with \<^verbatim>\<open>Fatal error:\<close>; the diagnostics
  are no part of the value returned. Inside the traversal every failure on one entry is
  caught, be it a query made for the record or the \<^verbatim>\<open>is_directory()\<close> asked of an excluded
  hidden entry: when no directory the walk descends into fails to open with an error, the
  traversal ends with exactly the records and the diagnostics read off the tree, so the
  text of each failure is in \<^verbatim>\<open>errors\<close> and the entries after it, and those below it when
  it is a directory, are handled as if it had not failed. A directory that fails to open
  with an error (other than a denied permission, which is skipped) is no failure of this
  kind: it ends the traversal and the call raises. No record and no diagnostic accumulated
  so far is dropped while the traversal runs.
\<close>

theorem scan_returns_records_only:
  assumes "status (fs root_path) = Inr Directory"
  shows "scandir_recursive fs root_open root_entries root_path max_depth include_hidden =
           (case find is_fatal (errors (traverse root_open root_entries max_depth include_hidden)) of
              Some err \<Rightarrow> Inl (RuntimeError err)
            | None \<Rightarrow> Inr (results (traverse root_open root_entries max_depth include_hidden))) \<and>
         (no_open_failure include_hidden (limit max_depth root_entries) \<longrightarrow>
            traverse Opens root_entries max_depth include_hidden =
              \<lparr>results = all_records include_hidden (limit max_depth root_entries),
               errors = all_diagnostics include_hidden (limit max_depth root_entries)\<rparr>) \<and>
         (\<not> no_open_failure include_hidden (limit max_depth root_entries) \<longrightarrow>
            (\<exists>err. scandir_recursive fs Opens root_entries root_path max_depth include_hidden =
                     Inl (RuntimeError err))) \<and>
         (\<forall>depth ts s.
            prefix (results s) (results (final_state (iterate max_depth include_hidden depth ts s))) \<and>
            prefix (errors s) (errors (final_state (iterate max_depth include_hidden depth ts s))))"
proof (intro conjI allI impI)
  show "scandir_recursive fs root_open root_entries root_path max_depth include_hidden =
           (case find is_fatal (errors (traverse root_open root_entries max_depth include_hidden)) of
              Some err \<Rightarrow> Inl (RuntimeError err)
            | None \<Rightarrow> Inr (results (traverse root_open root_entries max_depth include_hidden)))"
    by (rule scandir_valid_root [where fs = fs and root_path = root_path, OF assms])
next
  assume "no_open_failure include_hidden (limit max_depth root_entries)"
  then show "traverse Opens root_entries max_depth include_hidden =
              \<lparr>results = all_records include_hidden (limit max_depth root_entries),
               errors = all_diagnostics include_hidden (limit max_depth root_entries)\<rparr>"
    by (rule traverse_structural)
next
  assume "\<not> no_open_failure include_hidden (limit max_depth root_entries)"
  then show "\<exists>err. scandir_recursive fs Opens root_entries root_path max_depth include_hidden =
                     Inl (RuntimeError err)"
    by (rule scandir_open_failure [where fs = fs and root_path = root_path, OF assms])
next
  fix depth ts s
  show "prefix (results s) (results (final_state (iterate max_depth include_hidden depth ts s)))"
    and "prefix (errors s) (errors (final_state (iterate max_depth include_hidden depth ts s)))"
    using iterate_prefix [of s max_depth include_hidden depth ts] by simp_all
qed

theorem scan_returns_records_only_witness:
  "status (scan_fs ''root'') = Inr Directory \<and>
   no_open_failure False (limit 0 failing_entries) \<and>
   traverse Opens failing_entries 0 False =
     \<lparr>results =
        [file_record ''root/old/e.txt'' ''e.txt'' 1,
         directory_record ''root/lnk'' ''lnk'' True],
      errors =
        [''filesystem error: status: Too many levels of symbolic links [root/.loop]'',
         ''filesystem error: cannot get file time: Input/output error [root/old]'',
         ''filesystem error: cannot get file size: Operation not supported [root/pipe]'']\<rparr> \<and>
   scandir_recursive scan_fs Opens failing_entries ''root'' 0 False =
     Inr [file_record ''root/old/e.txt'' ''e.txt'' 1,
          directory_record ''root/lnk'' ''lnk'' True] \<and>
   \<not> no_open_failure False (limit 0 broken_entries) \<and>
   (\<exists>err. scandir_recursive scan_fs Opens broken_entries ''root'' 0 False = Inl (RuntimeError err))"
proof -
  note T = scan_returns_records_only [where fs = scan_fs and root_path = "''root''"
      and root_open = Opens and root_entries = failing_entries and max_depth = 0
      and include_hidden = False, OF scan_fs_root]
  have nf: "no_open_failure False (limit 0 failing_entries)"
    unfolding limit_zero by (rule sample_failing(1))
  have tr: "traverse Opens failing_entries 0 False =
     \<lparr>results =
        [file_record ''root/old/e.txt'' ''e.txt'' 1,
         directory_record ''root/lnk'' ''lnk'' True],
      errors =
        [''filesystem error: status: Too many levels of symbolic links [root/.loop]'',
         ''filesystem error: cannot get file time: Input/output error [root/old]'',
         ''filesystem error: cannot get file size: Operation not supported [root/pipe]'']\<rparr>"
    using T [THEN conjunct2, THEN conjunct1, rule_format, OF nf]
    unfolding limit_zero sample_failing(2,3) .
  have sc: "scandir_recursive scan_fs Opens failing_entries ''root'' 0 False =
     Inr [file_record ''root/old/e.txt'' ''e.txt'' 1,
          directory_record ''root/lnk'' ''lnk'' True]"
    unfolding T [THEN conjunct1] tr by (simp add: is_fatal_def)
  note B = scan_returns_records_only [where fs = scan_fs and root_path = "''root''"
      and root_open = Opens and root_entries = broken_entries and max_depth = 0
      and include_hidden = False, OF scan_fs_root]
  have br: "\<exists>err. scandir_recursive scan_fs Opens broken_entries ''root'' 0 False =
      Inl (RuntimeError err)"
    by (rule B [THEN conjunct2, THEN conjunct2, THEN conjunct1, rule_format, OF sample_broken])
  show ?thesis
    by (rule conjI [OF scan_fs_root conjI [OF nf conjI [OF tr conjI [OF sc
          conjI [OF sample_broken br]]]]])
qed

lemma time_point_cast_truncates:
  "\<bar>time_point_cast_seconds t * ticks_per_second\<bar> \<le> \<bar>t\<bar> \<and>
   \<bar>t - time_point_cast_seconds t * ticks_per_second\<bar> < ticks_per_second"
proof -
  define T where "T = ticks_per_second"
  define q where "q = \<bar>t\<bar> div T"
  define r where "r = \<bar>t\<bar> mod T"
  have T: "0 < T" by (simp add: T_def ticks_per_second_def)
  have eq: "\<bar>t\<bar> = q * T + r" by (simp add: q_def r_def)
  have r: "0 \<le> r" "r < T" using T by (simp_all add: r_def)
  have q: "0 \<le> q * T" using T by (simp add: q_def pos_imp_zdiv_nonneg_iff)
  have s: "time_point_cast_seconds t * T = sgn t * (q * T)"
    by (simp add: time_point_cast_seconds_def q_def T_def)
  show ?thesis
  proof (cases "0 \<le> t")
    case True
    then have "sgn t * (q * T) = q * T" by (cases "t = 0") (simp_all add: sgn_if q_def)
    then show ?thesis unfolding T_def [symmetric] s using True eq r q by linarith
  next
    case False
    then have "sgn t * (q * T) = - (q * T)" by (simp add: sgn_if)
    then show ?thesis unfolding T_def [symmetric] s using False eq r q by linarith
  qed
qed

lemma collect_info_mtime:
  assumes "collect_info e fname = Inr info" and "last_write_time (object e) = Inr ftime"
  shows "mtime info =
    time_point_cast_seconds (sys_clock_now (clocks e) + (ftime - file_clock_now (clocks e)))"
  using assms unfolding collect_info_def Let_def
  by (auto split: sum.splits prod.splits)

lemma get_file_info_mtime:
  assumes "get_file_info fs clk p = Inr d" and "last_write_time (fs p) = Inr ftime"
  shows "mtime_val d =
    time_point_cast_seconds (sys_clock_now clk + (ftime - file_clock_now clk))"
  using assms unfolding get_file_info_def Let_def
  by (auto split: sum.splits if_splits)

text \<open>
  C7. The modification time of a record is \<open>sys_clock_now + (ftime - file_clock_now)\<close> cut
  to whole seconds towards zero, with the two clock readings taken for that entry, and
  \<^verbatim>\<open>get_file_info\<close> on the same file under the same clock readings reports the same
  value.
\<close>

theorem reconciled_mtime:
  assumes "last_write_time (object e) = Inr ftime"
    and "collect_info e fname = Inr info"
    and "fs p = object e"
    and "get_file_info fs (clocks e) p = Inr d"
  shows "mtime info =
           time_point_cast_seconds (sys_clock_now (clocks e) + (ftime - file_clock_now (clocks e))) \<and>
         mtime_val d = mtime info \<and>
         \<bar>mtime info * ticks_per_second\<bar> \<le> \<bar>sys_clock_now (clocks e) + (ftime - file_clock_now (clocks e))\<bar> \<and>
         \<bar>sys_clock_now (clocks e) + (ftime - file_clock_now (clocks e)) - mtime info * ticks_per_second\<bar>
           < ticks_per_second"
proof -
  have m: "mtime info =
      time_point_cast_seconds (sys_clock_now (clocks e) + (ftime - file_clock_now (clocks e)))"
    by (rule collect_info_mtime [OF assms(2) assms(1)])
  have "last_write_time (fs p) = Inr ftime" using assms(1,3) by simp
  from get_file_info_mtime [OF assms(4) this] m have "mtime_val d = mtime info" by simp
  with m time_point_cast_truncates
    [of "sys_clock_now (clocks e) + (ftime - file_clock_now (clocks e))"]
  show ?thesis by simp
qed

theorem reconciled_mtime_witness:
  "last_write_time (object (entry_at ''root/a.txt'' (regular_file [104, 101, 108, 108, 111]))) =
     Inr 1700000000123456789 \<and>
   collect_info (entry_at ''root/a.txt'' (regular_file [104, 101, 108, 108, 111])) ''a.txt'' =
     Inr (file_record ''root/a.txt'' ''a.txt'' 5) \<and>
   scan_fs ''root/a.txt'' = object (entry_at ''root/a.txt'' (regular_file [104, 101, 108, 108, 111])) \<and>
   map_sum id mtime_val
     (get_file_info scan_fs (clocks (entry_at ''root/a.txt'' (regular_file [104, 101, 108, 108, 111])))
        ''root/a.txt'') = Inr 1700000000 \<and>
   mtime (file_record ''root/a.txt'' ''a.txt'' 5) = 1700000000"
proof -
  let ?e = "entry_at ''root/a.txt'' (regular_file [104, 101, 108, 108, 111])"
  have l: "last_write_time (object ?e) = Inr 1700000000123456789"
    by (simp add: entry_at_def regular_file_def)
  have c: "collect_info ?e ''a.txt'' = Inr (file_record ''root/a.txt'' ''a.txt'' 5)"
    by (simp add: collect_info_def entry_at_def regular_file_def sample_clock_def
        entry_is_symlink_def entry_is_directory_def entry_status_def status_def symlink_status_def
        time_point_cast_seconds_def ticks_per_second_def file_record_def)
  have f: "scan_fs ''root/a.txt'' = object ?e"
    by (simp add: scan_fs_def entry_at_def)
  have "\<exists>d. get_file_info scan_fs (clocks ?e) ''root/a.txt'' = Inr d"
    by (simp add: get_file_info_def scan_fs_def regular_file_def fs_exists_def status_def
        symlink_status_def Let_def)
  then obtain d where g: "get_file_info scan_fs (clocks ?e) ''root/a.txt'' = Inr d" by blast
  from reconciled_mtime [OF l c f g]
  have "mtime_val d = mtime (file_record ''root/a.txt'' ''a.txt'' 5)" by simp
  moreover have m: "mtime (file_record ''root/a.txt'' ''a.txt'' 5) = 1700000000"
    by (simp add: file_record_def)
  ultimately have "map_sum id mtime_val (get_file_info scan_fs (clocks ?e) ''root/a.txt'') = Inr 1700000000"
    using g by simp
  with l c f m show ?thesis by blast
qed

text \<open>
  C8 fails on the code for a symbolic link whose target is a directory: the record of the
  link has \<^verbatim>\<open>is_symlink = true\<close>, size 0, and \<^verbatim>\<open>is_directory = true\<close>, which is the type of
  the target, since \<^verbatim>\<open>entry.is_directory()\<close> follows the link. The link itself is not a
  directory.
\<close>

theorem symlink_recorded_as_directory:
  "symlink_status link_to_directory = Symlink \<and>
   status link_to_directory = Inr Directory \<and>
   scandir_recursive scan_fs Opens [Node (entry_at ''root/lnk'' link_to_directory) Opens []]
       ''root'' 0 False =
     Inr [\<lparr>path = ''root/lnk'', name = ''lnk'', size_field = 0, mtime = 1700000000,
           is_directory = True, is_symlink = True\<rparr>]"
  by (simp add: scandir_recursive_def scan_fs_def fs_exists_def fs_is_directory_def is_fatal_def
      traverse_def visit_entry_def collect_info_def entry_at_def
      directory_object_def link_to_directory_def sample_clock_def
      entry_is_symlink_def entry_is_directory_def entry_status_def status_def symlink_status_def
      filename_def hidden_name_def time_point_cast_seconds_def ticks_per_second_def Let_def)

text \<open>
  C9 as stated fails: for a symbolic link to a directory \<^verbatim>\<open>get_file_info\<close> reports
  \<^verbatim>\<open>is_symlink = true\<close> together with \<^verbatim>\<open>is_directory = true\<close>. The type fields are taken from
  \<^verbatim>\<open>fs::status\<close>, so they describe the target; the link itself is no directory.
\<close>

theorem symlink_type_fields_counterexample:
  "symlink_status (scan_fs ''root/lnk'') = Symlink \<and>
   get_file_info scan_fs sample_clock ''root/lnk'' =
     Inr \<lparr>info_path = ''root/lnk'', info_name = ''lnk'',
          is_regular_file = False, is_directory_val = True, is_symlink_val = True,
          is_block_file = False, is_character_file = False, is_fifo = False, is_socket = False,
          size_val = 0, mtime_val = 1700000000, perms_val = 493,
          is_readable = True, is_writable = True, is_executable = True\<rparr>"
  by (simp add: get_file_info_def scan_fs_def link_to_directory_def fs_exists_def status_def
      symlink_status_def sample_clock_def filename_def time_point_cast_seconds_def
      ticks_per_second_def Let_def)

text \<open>
  C9, amended. For a symbolic link to a directory whose modification time can be read,
  \<^verbatim>\<open>get_file_info\<close> returns, with \<^verbatim>\<open>is_symlink = true\<close>, and its other type fields describe
  the target of the link: \<^verbatim>\<open>is_directory = true\<close> and the five others false. In general
  \<^verbatim>\<open>is_symlink\<close> is the type of the path itself and the other type fields classify what
  \<^verbatim>\<open>fs::status\<close> finds after following a link.
\<close>

theorem symlink_type_fields:
  "(own_type (fs p) = Symlink \<and> target (fs p) = Inr Directory \<and> last_write_time (fs p) = Inr ftime \<longrightarrow>
      (\<exists>d. get_file_info fs clk p = Inr d \<and> is_symlink_val d \<and> is_directory_val d \<and>
           \<not> is_regular_file d \<and> \<not> is_block_file d \<and> \<not> is_character_file d \<and>
           \<not> is_fifo d \<and> \<not> is_socket d)) \<and>
   (\<forall>d t. get_file_info fs clk p = Inr d \<longrightarrow> status (fs p) = Inr t \<longrightarrow>
      is_symlink_val d = (symlink_status (fs p) = Symlink) \<and>
      is_regular_file d = (t = Regular) \<and> is_directory_val d = (t = Directory) \<and>
      is_block_file d = (t = Block) \<and> is_character_file d = (t = Character) \<and>
      is_fifo d = (t = Fifo) \<and> is_socket d = (t = Socket))"
proof (intro conjI allI impI)
  assume "own_type (fs p) = Symlink \<and> target (fs p) = Inr Directory \<and> last_write_time (fs p) = Inr ftime"
  then show "\<exists>d. get_file_info fs clk p = Inr d \<and> is_symlink_val d \<and> is_directory_val d \<and>
           \<not> is_regular_file d \<and> \<not> is_block_file d \<and> \<not> is_character_file d \<and>
           \<not> is_fifo d \<and> \<not> is_socket d"
    by (simp add: get_file_info_def fs_exists_def status_def symlink_status_def Let_def)
next
  fix d t
  assume g: "get_file_info fs clk p = Inr d" and s: "status (fs p) = Inr t"
  from g s have
    "is_symlink_val d = (symlink_status (fs p) = Symlink) \<and>
      is_regular_file d = (t = Regular) \<and> is_directory_val d = (t = Directory) \<and>
      is_block_file d = (t = Block) \<and> is_character_file d = (t = Character) \<and>
      is_fifo d = (t = Fifo) \<and> is_socket d = (t = Socket)"
    unfolding get_file_info_def Let_def fs_exists_def
    by (auto split: sum.splits if_splits)
  then show "is_symlink_val d = (symlink_status (fs p) = Symlink)"
    and "is_regular_file d = (t = Regular)" and "is_directory_val d = (t = Directory)"
    and "is_block_file d = (t = Block)" and "is_character_file d = (t = Character)"
    and "is_fifo d = (t = Fifo)" and "is_socket d = (t = Socket)"
    by simp_all
qed

theorem symlink_type_fields_witness:
  "own_type (scan_fs ''root/lnk'') = Symlink \<and> target (scan_fs ''root/lnk'') = Inr Directory \<and>
   last_write_time (scan_fs ''root/lnk'') = Inr 1700000000987654321 \<and>
   map_sum id is_symlink_val (get_file_info scan_fs sample_clock ''root/lnk'') = Inr True \<and>
   map_sum id is_directory_val (get_file_info scan_fs sample_clock ''root/lnk'') = Inr True \<and>
   map_sum id is_regular_file (get_file_info scan_fs sample_clock ''root/lnk'') = Inr False"
proof -
  have h: "own_type (scan_fs ''root/lnk'') = Symlink \<and> target (scan_fs ''root/lnk'') = Inr Directory \<and>
   last_write_time (scan_fs ''root/lnk'') = Inr 1700000000987654321"
    by (simp add: scan_fs_def link_to_directory_def)
  from symlink_type_fields [where fs = scan_fs and p = "''root/lnk''" and clk = sample_clock
      and ftime = 1700000000987654321, THEN conjunct1, rule_format, OF h]
  obtain d where "get_file_info scan_fs sample_clock ''root/lnk'' = Inr d"
    and "is_symlink_val d" and "is_directory_val d" and "\<not> is_regular_file d" by blast
  then show ?thesis using h by simp
qed

end
